theory Spec2Isabelle
  imports Main "HOL-Library.Multiset"
begin

section \<open>The IR as the clustering pass sees it\<close>

text \<open>
  A value is the \<open>i\<close>-th result of the operation with a given identity, or a block
  argument (which has no defining operation). An \<open>Operation *\<close> of the source is modelled
  by the operation itself; every operation carries a unique identity \<open>opId\<close>, so
  equality of operations is pointer equality. Only string attributes are modelled (the
  source reads the device attribute through \<open>getAttrOfType<StringAttr>\<close>).
\<close>

datatype val = OpResult nat nat | BlockArgument nat

datatype operation =
  Operation (opId: nat) (opOperands: "val list") (opAttrs: "(string \<times> string) list")
    (opNumResults: nat) (opRegions: "operation list list list")

text \<open>
  A function: the operations of its single block without the terminator, in block
  order; the terminator; and the use-list of every value (the owners of its uses, in
  use-list order, which the IR library maintains and the block text does not fix).
\<close>

record func =
  funcName :: string
  funcBody :: "operation list"
  funcRet :: operation
  funcUses :: "val \<Rightarrow> operation list"

definition DEVICE_ATTR_HOST :: string where
  "DEVICE_ATTR_HOST = ''host''"

record FunctionMetadata =
  anchorName :: string
  deviceAttr :: string
  originalName :: string
  inputs :: "val list"
  results :: "val list"
  ops :: "operation list"

text \<open>
  Helpers of the surrounding code base that this file only calls: they are parameters
  of the model. \<open>getOutputsOfCluster\<close> receives the return-multiplicity map when outputs
  are duplicated and no map (\<open>nullptr\<close>) otherwise. \<open>cloneFunc\<close> is \<open>FuncOp::clone\<close> of the
  IR library.
\<close>

record externs =
  getInputsOfCluster :: "operation list \<Rightarrow> val list"
  getOutputsOfCluster :: "operation list \<Rightarrow> (val \<rightharpoonup> int) option \<Rightarrow> val list"
  isMhloConstantLike :: "operation \<Rightarrow> bool"
  getHostAnchorName :: string
  cloneFunc :: "func \<Rightarrow> func"

type_synonym ValidateSubGraphFn = "(operation list \<Rightarrow> bool) option"

record options =
  attrName :: string
  device :: string
  deviceAnchorName :: string
  dupOutputs :: bool
  enableMultiGraph :: bool
  validateSubGraphFn :: ValidateSubGraphFn

section \<open>Host marking\<close>

fun isHostOp :: "string \<Rightarrow> operation \<Rightarrow> bool" where
  "isHostOp a (Operation i os as n rs) =
     ((\<exists>r \<in> set rs. \<exists>b \<in> set r. \<exists>innerOp \<in> set b. isHostOp a innerOp)
      \<or> map_of as a = Some DEVICE_ATTR_HOST)"

text \<open>\<open>Value::getDefiningOp\<close> for the operand of a top-level operation of the block.\<close>

fun getDefiningOp :: "operation list \<Rightarrow> val \<Rightarrow> operation option" where
  "getDefiningOp body (OpResult d i) = find (\<lambda>x. opId x = d) body"
| "getDefiningOp body (BlockArgument k) = None"

lemma getDefiningOp_in_body: "getDefiningOp body v = Some d \<Longrightarrow> d \<in> set body"
  by (cases v) (auto simp: find_Some_iff)

lemma set_map_filter_getDefiningOp:
  "set (List.map_filter (getDefiningOp body) vs) \<subseteq> set body"
  by (auto simp: List.map_filter_def dest: getDefiningOp_in_body)

text \<open>
  \<open>insertOpsRecursively\<close>: the recursion of the source with its call stack made
  explicit. The head of the stack is the operation of the current call; an operation
  already in the set returns at once, a new one is inserted and the defining operations
  of its operands are visited in operand order before the rest of the stack.
\<close>

function insertOpsRecursively ::
  "operation list \<Rightarrow> operation list \<Rightarrow> operation list \<Rightarrow> operation list" where
  "insertOpsRecursively body [] opSet = opSet"
| "insertOpsRecursively body (op # stack) opSet =
     (if op \<in> set opSet then insertOpsRecursively body stack opSet
      else insertOpsRecursively body
             (List.map_filter (getDefiningOp body) (opOperands op) @ stack) (opSet @ [op]))"
  by pat_completeness auto

termination
proof (relation "measures [\<lambda>(body, stack, opSet). card ((set body \<union> set stack) - set opSet),
                           \<lambda>(body, stack, opSet). length stack]", goal_cases)
  case 1
  show ?case by simp
next
  case (2 body op stack opSet)
  then have "(set body \<union> set stack) - set opSet \<subseteq> (set body \<union> set (op # stack)) - set opSet"
    by auto
  then have "card ((set body \<union> set stack) - set opSet)
               \<le> card ((set body \<union> set (op # stack)) - set opSet)"
    by (intro card_mono) auto
  then show ?case by auto
next
  case (3 body op stack opSet)
  let ?ds = "List.map_filter (getDefiningOp body) (opOperands op)"
  have "set ?ds \<subseteq> set body" by (rule set_map_filter_getDefiningOp)
  with 3 have "(set body \<union> set (?ds @ stack)) - set (opSet @ [op])
                 \<subset> (set body \<union> set (op # stack)) - set opSet"
    by auto
  then have "card ((set body \<union> set (?ds @ stack)) - set (opSet @ [op]))
               < card ((set body \<union> set (op # stack)) - set opSet)"
    by (intro psubset_card_mono) auto
  then show ?case by simp
qed

text \<open>The first loop of \<open>getFunctionMetadatasFallback\<close>: the set \<open>hostOps\<close>.\<close>

definition hostOps :: "func \<Rightarrow> string \<Rightarrow> operation list" where
  "hostOps f a =
     foldl (\<lambda>s op. if isHostOp a op then insertOpsRecursively (funcBody f) [op] s else s)
       [] (funcBody f)"

text \<open>The multiplicity of each operand of the terminator (\<open>retStats\<close>).\<close>

definition retStats :: "operation \<Rightarrow> (val \<rightharpoonup> int)" where
  "retStats retOp =
     foldl (\<lambda>m operand. case m operand of Some k \<Rightarrow> m(operand \<mapsto> k + 1)
                                          | None \<Rightarrow> m(operand \<mapsto> 1))
       Map.empty (opOperands retOp)"

text \<open>The test \<open>validateSubGraphFn != nullptr && !validateSubGraphFn(ops)\<close>.\<close>

definition rejects :: "ValidateSubGraphFn \<Rightarrow> operation list \<Rightarrow> bool" where
  "rejects validate xs = (case validate of None \<Rightarrow> False | Some v \<Rightarrow> \<not> v xs)"

definition getFunctionMetadatasFallback ::
  "externs \<Rightarrow> func \<Rightarrow> options \<Rightarrow> FunctionMetadata list option" where
  "getFunctionMetadatasFallback ext f opts =
     (let hs = hostOps f (attrName opts);
          stats = (if dupOutputs opts then Some (retStats (funcRet f)) else None);
          hostFuncOps = filter (\<lambda>op. op \<in> set hs) (funcBody f);
          metadatas =
            (if length hs > 0
             then [\<lparr>anchorName = getHostAnchorName ext, deviceAttr = DEVICE_ATTR_HOST,
                    originalName = funcName f,
                    inputs = getInputsOfCluster ext hostFuncOps,
                    results = getOutputsOfCluster ext hostFuncOps stats,
                    ops = hostFuncOps\<rparr>]
             else []);
          deviceFuncOps = filter (\<lambda>op. op \<notin> set hs) (funcBody f)
      in if length deviceFuncOps > 0
         then (if rejects (validateSubGraphFn opts) deviceFuncOps then None
               else Some (metadatas @
                     [\<lparr>anchorName = deviceAnchorName opts, deviceAttr = device opts,
                       originalName = funcName f,
                       inputs = getInputsOfCluster ext deviceFuncOps,
                       results = getOutputsOfCluster ext deviceFuncOps stats,
                       ops = deviceFuncOps\<rparr>]))
         else Some metadatas)"

section \<open>Clusters\<close>

text \<open>
  An \<open>ActiveDeviceCluster\<close> lives in the map \<open>op2cluster\<close> under the operation it was
  created for; a pointer to a cluster is modelled by the identity of that operation.
  \<open>operations\<close> is a \<open>SetVector\<close>: a vector without duplicates.
\<close>

record ActiveDeviceCluster =
  operations :: "operation list"
  mergedInto :: "nat option"

type_synonym OpClusterMap = "nat \<rightharpoonup> ActiveDeviceCluster"

definition svInsert :: "'a list \<Rightarrow> 'a \<Rightarrow> 'a list" where
  "svInsert xs x = (if x \<in> set xs then xs else xs @ [x])"

definition svInsertAll :: "'a list \<Rightarrow> 'a list \<Rightarrow> 'a list" where
  "svInsertAll xs ys = foldl svInsert xs ys"

definition svRemove :: "'a list \<Rightarrow> 'a \<Rightarrow> 'a list" where
  "svRemove xs x = remove1 x xs"

text \<open>
  \<open>getRoot\<close> follows \<open>mergedInto\<close> and compresses the path on the way back. A run that
  does not return normally (a cyclic chain here; a failed assertion or a read of an empty
  vector below) is the value \<open>None\<close>.
\<close>

partial_function (option) getRoot ::
  "OpClusterMap \<Rightarrow> nat \<Rightarrow> (nat \<times> OpClusterMap) option" where
  "getRoot m c =
     (case m c of
        None \<Rightarrow> None
      | Some cl \<Rightarrow>
          (case mergedInto cl of
             None \<Rightarrow> Some (c, m)
           | Some p \<Rightarrow>
               Option.bind (getRoot m p)
                 (\<lambda>(r, m').
                    case m' c of
                      None \<Rightarrow> None
                    | Some cl' \<Rightarrow> Some (r, m'(c \<mapsto> cl'\<lparr>mergedInto := Some r\<rparr>)))))"

declare getRoot.simps [code]

text \<open>Positions in the block.\<close>

definition opIsBeforeInBlock :: "operation list \<Rightarrow> operation \<Rightarrow> operation \<Rightarrow> bool" where
  "opIsBeforeInBlock blk a b =
     (length (takeWhile (\<lambda>x. x \<noteq> a) blk) < length (takeWhile (\<lambda>x. x \<noteq> b) blk))"

definition isBeforeInBlock ::
  "operation list \<Rightarrow> ActiveDeviceCluster \<Rightarrow> ActiveDeviceCluster \<Rightarrow> bool option" where
  "isBeforeInBlock blk this other =
     (if operations this = [] \<or> operations other = [] then None
      else Some (opIsBeforeInBlock blk (last (operations this)) (hd (operations other))))"

text \<open>The operations from \<open>std::next(a)\<close> up to, and without, \<open>b\<close>.\<close>

definition opsBetween :: "operation list \<Rightarrow> operation \<Rightarrow> operation \<Rightarrow> operation list" where
  "opsBetween blk a b = takeWhile (\<lambda>x. x \<noteq> b) (tl (dropWhile (\<lambda>x. x \<noteq> a) blk))"

text \<open>
  \<open>moveBefore\<close> and \<open>moveAfter\<close> unlink the operation and link it next to an operation
  of the same block (the source only ever names one that is there).
\<close>

fun insertBefore :: "'a \<Rightarrow> 'a \<Rightarrow> 'a list \<Rightarrow> 'a list" where
  "insertBefore x y [] = [x]"
| "insertBefore x y (z # zs) = (if z = y then x # z # zs else z # insertBefore x y zs)"

fun insertAfter :: "'a \<Rightarrow> 'a \<Rightarrow> 'a list \<Rightarrow> 'a list" where
  "insertAfter x y [] = [x]"
| "insertAfter x y (z # zs) = (if z = y then z # x # zs else z # insertAfter x y zs)"

definition moveBefore :: "operation \<Rightarrow> operation \<Rightarrow> operation list \<Rightarrow> operation list" where
  "moveBefore op existing blk = insertBefore op existing (remove1 op blk)"

definition moveAfter :: "operation \<Rightarrow> operation \<Rightarrow> operation list \<Rightarrow> operation list" where
  "moveAfter op existing blk = insertAfter op existing (remove1 op blk)"

subsection \<open>Dependencies of an operation on a set of operations\<close>

fun anyDefIn :: "operation \<Rightarrow> operation list \<Rightarrow> bool" where
  "anyDefIn (Operation i os as n rs) xs =
     ((\<exists>r \<in> set rs. \<exists>b \<in> set r. \<exists>innerOp \<in> set b. anyDefIn innerOp xs)
      \<or> (\<exists>operand \<in> set os.
            case operand of OpResult d k \<Rightarrow> (\<exists>x \<in> set xs. opId x = d)
                          | BlockArgument k \<Rightarrow> False))"

fun isAncestor :: "operation \<Rightarrow> operation \<Rightarrow> bool" where
  "isAncestor (Operation i os as n rs) other =
     (Operation i os as n rs = other
      \<or> (\<exists>r \<in> set rs. \<exists>b \<in> set r. \<exists>innerOp \<in> set b. isAncestor innerOp other))"

text \<open>\<open>op->getUses()\<close>: the uses of every result, result by result.\<close>

definition getUses :: "func \<Rightarrow> operation \<Rightarrow> operation list" where
  "getUses f op = concat (map (\<lambda>k. funcUses f (OpResult (opId op) k)) [0..<opNumResults op])"

definition anyUseIn :: "func \<Rightarrow> operation \<Rightarrow> operation list \<Rightarrow> bool" where
  "anyUseIn f op xs =
     (\<exists>owner \<in> set (getUses f op). (\<exists>x \<in> set xs. isAncestor x owner) \<or> owner \<in> set xs)"

subsection \<open>The move-up and move-down sets\<close>

text \<open>
  The inner loop over the operations of a rejected operation's cluster. Its first two
  statements are \<open>assert\<close> calls, and the second one, \<open>assert(remain.insert(clusterOp))\<close>,
  carries the insertion into \<open>remain\<close> as its side effect. The flag \<open>ndebug\<close> says whether
  the file is compiled with \<open>NDEBUG\<close> defined. Without it both calls are evaluated: the
  cluster operation has to be one of \<open>vec\<close>, its insertion into \<open>remain\<close> has to be a new
  one, and a failed assertion aborts the run. With it both calls expand to nothing:
  nothing is checked and nothing is inserted into \<open>remain\<close>; the removal from the move set
  is all that is left of the loop body. Every function that reaches this loop takes the
  flag as its first argument and hands it on.
\<close>

fun pullCluster ::
  "bool \<Rightarrow> operation list \<Rightarrow> operation list \<Rightarrow> operation list \<Rightarrow> operation list
   \<Rightarrow> (operation list \<times> operation list) option" where
  "pullCluster ndebug vec [] remain move = Some (remain, move)"
| "pullCluster ndebug vec (clusterOp # rest) remain move =
     (if ndebug then
        pullCluster ndebug vec rest remain
          (if clusterOp \<in> set move then svRemove move clusterOp else move)
      else if clusterOp \<notin> set vec then None
      else if clusterOp \<in> set remain then None
      else pullCluster ndebug vec rest (remain @ [clusterOp])
             (if clusterOp \<in> set move then svRemove move clusterOp else move))"

fun computeMoveUpLoop ::
  "bool \<Rightarrow> operation list \<Rightarrow> operation list \<Rightarrow> operation list \<Rightarrow> operation list \<Rightarrow> operation list
   \<Rightarrow> OpClusterMap \<Rightarrow> (operation list \<times> operation list \<times> OpClusterMap) option" where
  "computeMoveUpLoop ndebug target vec [] remain moveUp m = Some (remain, moveUp, m)"
| "computeMoveUpLoop ndebug target vec (op # rest) remain moveUp m =
     (if op \<in> set remain then computeMoveUpLoop ndebug target vec rest remain moveUp m
      else if anyDefIn op target \<or> anyDefIn op remain then
        (case m (opId op) of
           None \<Rightarrow> computeMoveUpLoop ndebug target vec rest (svInsert remain op) moveUp m
         | Some it \<Rightarrow>
             (case getRoot m (opId op) of
                None \<Rightarrow> None
              | Some (cluster, m') \<Rightarrow>
                  (case m' cluster of
                     None \<Rightarrow> None
                   | Some cl \<Rightarrow>
                       (case pullCluster ndebug vec (operations cl) remain moveUp of
                          None \<Rightarrow> None
                        | Some (remain', moveUp') \<Rightarrow>
                            computeMoveUpLoop ndebug target vec rest remain' moveUp' m'))))
      else computeMoveUpLoop ndebug target vec rest remain (svInsert moveUp op) m)"

definition computeMoveUpSet ::
  "bool \<Rightarrow> operation list \<Rightarrow> operation list \<Rightarrow> operation list \<Rightarrow> OpClusterMap
   \<Rightarrow> (operation list \<times> operation list \<times> OpClusterMap) option" where
  "computeMoveUpSet ndebug target src moveUp m = computeMoveUpLoop ndebug target src src [] moveUp m"

fun computeMoveDownLoop ::
  "bool \<Rightarrow> func \<Rightarrow> operation list \<Rightarrow> operation list \<Rightarrow> operation list \<Rightarrow> operation list
   \<Rightarrow> operation list \<Rightarrow> OpClusterMap
   \<Rightarrow> (operation list \<times> operation list \<times> OpClusterMap) option" where
  "computeMoveDownLoop ndebug f target vec [] remain moveDown m = Some (remain, moveDown, m)"
| "computeMoveDownLoop ndebug f target vec (op # rest) remain moveDown m =
     (if op \<in> set remain then computeMoveDownLoop ndebug f target vec rest remain moveDown m
      else if anyUseIn f op target \<or> anyUseIn f op remain then
        (case m (opId op) of
           None \<Rightarrow> computeMoveDownLoop ndebug f target vec rest (svInsert remain op) moveDown m
         | Some it \<Rightarrow>
             (case getRoot m (opId op) of
                None \<Rightarrow> None
              | Some (cluster, m') \<Rightarrow>
                  (case m' cluster of
                     None \<Rightarrow> None
                   | Some cl \<Rightarrow>
                       (case pullCluster ndebug vec (rev (operations cl)) remain moveDown of
                          None \<Rightarrow> None
                        | Some (remain', moveDown') \<Rightarrow>
                            computeMoveDownLoop ndebug f target vec rest remain' moveDown' m'))))
      else computeMoveDownLoop ndebug f target vec rest remain (svInsert moveDown op) m)"

text \<open>The loop runs over \<open>vec\<close> reversed; at the end \<open>remain\<close> is put back in forward order.\<close>

definition computeMoveDownSet ::
  "bool \<Rightarrow> func \<Rightarrow> operation list \<Rightarrow> operation list \<Rightarrow> operation list \<Rightarrow> OpClusterMap
   \<Rightarrow> (operation list \<times> operation list \<times> OpClusterMap) option" where
  "computeMoveDownSet ndebug f target src moveDown m =
     (case computeMoveDownLoop ndebug f target src (rev src) [] moveDown m of
        None \<Rightarrow> None
      | Some (remain, moveDown', m') \<Rightarrow> Some (rev remain, moveDown', m'))"

subsection \<open>Merging\<close>

text \<open>
  The part of \<open>DeviceClusteringAlgoBaseHelper\<close> that merging reads and writes: the
  function (whose block the moves reorder), the cluster map and the candidate list.
\<close>

record helper =
  funcOp :: func
  op2cluster :: OpClusterMap
  candidates :: "nat list"

definition setBlock :: "operation list \<Rightarrow> helper \<Rightarrow> helper" where
  "setBlock blk h = h\<lparr>funcOp := (funcOp h)\<lparr>funcBody := blk\<rparr>\<rparr>"

text \<open>
  \<open>tryMergeInto\<close>, branch by branch. The \<open>else\<close> branch starts with
  \<open>assert(to->isBeforeInBlock(from))\<close>. When neither cluster is before the other, a build
  with assertions aborts there; a build without them reads the block from the operation
  after the last one of \<open>to\<close> up to the first one of \<open>from\<close>, which is not ahead of it, so
  the range runs over the end of the block. Neither run returns normally: the value is
  \<open>None\<close> in both builds.
\<close>

definition tryMergeInto :: "bool \<Rightarrow> nat \<Rightarrow> nat \<Rightarrow> helper \<Rightarrow> (bool \<times> helper) option" where
  "tryMergeInto ndebug from to h =
     (case (op2cluster h from, op2cluster h to) of
        (Some fromC, Some toC) \<Rightarrow>
          (case isBeforeInBlock (funcBody (funcOp h)) fromC toC of
             None \<Rightarrow> None
           | Some True \<Rightarrow>
               (let toMove = opsBetween (funcBody (funcOp h))
                               (last (operations fromC)) (hd (operations toC)) in
                case computeMoveUpSet ndebug (operations fromC) toMove [] (op2cluster h) of
                  None \<Rightarrow> None
                | Some (toMove1, moveUp, m1) \<Rightarrow>
                    (case computeMoveDownSet ndebug (funcOp h) (operations toC) toMove1 [] m1 of
                       None \<Rightarrow> None
                     | Some (toMove2, moveDown, m2) \<Rightarrow>
                         if toMove2 \<noteq> [] then Some (False, h\<lparr>op2cluster := m2\<rparr>)
                         else
                           (case (m2 from, m2 to) of
                              (Some fromC2, Some toC2) \<Rightarrow>
                                (let blk1 = foldl (\<lambda>b op. moveBefore op (hd (operations fromC)) b)
                                              (funcBody (funcOp h)) moveUp;
                                     blk2 = foldl (\<lambda>b op. moveAfter op (last (operations toC)) b)
                                              blk1 moveDown;
                                     merged = svInsertAll (operations fromC) (operations toC)
                                 in Some (True, setBlock blk2
                                      (h\<lparr>op2cluster :=
                                           m2(to \<mapsto> toC2\<lparr>operations := merged\<rparr>,
                                              from \<mapsto> \<lparr>operations = [], mergedInto = Some to\<rparr>)\<rparr>)))
                            | _ \<Rightarrow> None)))
           | Some False \<Rightarrow>
               (case isBeforeInBlock (funcBody (funcOp h)) toC fromC of
                  Some True \<Rightarrow>
                    (let toMove = opsBetween (funcBody (funcOp h))
                                    (last (operations toC)) (hd (operations fromC)) in
                     case computeMoveDownSet ndebug (funcOp h) (operations fromC) toMove []
                            (op2cluster h) of
                       None \<Rightarrow> None
                     | Some (toMove1, moveDown, m1) \<Rightarrow>
                         (case computeMoveUpSet ndebug (operations toC) toMove1 [] m1 of
                            None \<Rightarrow> None
                          | Some (toMove2, moveUp, m2) \<Rightarrow>
                              if toMove2 \<noteq> [] then Some (False, h\<lparr>op2cluster := m2\<rparr>)
                              else
                                (case (m2 from, m2 to) of
                                   (Some fromC2, Some toC2) \<Rightarrow>
                                     (let blk1 = foldl (\<lambda>b op. moveBefore op (hd (operations toC)) b)
                                                   (funcBody (funcOp h)) moveUp;
                                          blk2 = foldl (\<lambda>b op. moveAfter op (last (operations fromC)) b)
                                                   blk1 moveDown;
                                          merged = svInsertAll (operations toC) (operations fromC)
                                      in Some (True, setBlock blk2
                                           (h\<lparr>op2cluster :=
                                                m2(to \<mapsto> toC2\<lparr>operations := merged\<rparr>,
                                                   from \<mapsto> \<lparr>operations = [],
                                                             mergedInto = Some to\<rparr>)\<rparr>)))
                                 | _ \<Rightarrow> None)))
                | _ \<Rightarrow> None))
      | _ \<Rightarrow> None)"

text \<open>A null pointer is \<open>None\<close>; the result is the surviving cluster or the null pointer.\<close>

definition tryMerge :: "bool \<Rightarrow> nat option \<Rightarrow> nat option \<Rightarrow> helper \<Rightarrow> (nat option \<times> helper) option" where
  "tryMerge ndebug lhs rhs h =
     (case (lhs, rhs) of
        (Some l, Some r) \<Rightarrow>
          if l = r then Some (None, h)
          else
            (case (op2cluster h l, op2cluster h r) of
               (Some lc, Some rc) \<Rightarrow>
                 if mergedInto lc \<noteq> None \<or> mergedInto rc \<noteq> None then Some (None, h)
                 else
                   (case tryMergeInto ndebug l r h of
                      None \<Rightarrow> None
                    | Some (True, h1) \<Rightarrow> Some (Some r, h1)
                    | Some (False, h1) \<Rightarrow>
                        (case tryMergeInto ndebug r l h1 of
                           None \<Rightarrow> None
                         | Some (True, h2) \<Rightarrow> Some (Some l, h2)
                         | Some (False, h2) \<Rightarrow> Some (None, h2)))
             | _ \<Rightarrow> None)
      | _ \<Rightarrow> Some (None, h))"

section \<open>The clustering strategies\<close>

text \<open>
  The constructor of \<open>DeviceClusteringAlgoBaseHelper\<close>: one singleton cluster for
  every operation that is not host itself and is not a constant whose only use belongs
  to a host operation.
\<close>

definition skippedByHelper :: "externs \<Rightarrow> func \<Rightarrow> string \<Rightarrow> operation \<Rightarrow> bool" where
  "skippedByHelper ext f a op =
     (isHostOp a op
      \<or> (isMhloConstantLike ext op
          \<and> (case funcUses f (OpResult (opId op) 0) of
                [user] \<Rightarrow> isHostOp a user
              | _ \<Rightarrow> False)))"

definition try_emplace :: "OpClusterMap \<Rightarrow> operation \<Rightarrow> OpClusterMap" where
  "try_emplace m op =
     (case m (opId op) of
        None \<Rightarrow> m(opId op \<mapsto> \<lparr>operations = [op], mergedInto = None\<rparr>)
      | Some cl \<Rightarrow> m)"

definition DeviceClusteringAlgoBaseHelper :: "externs \<Rightarrow> func \<Rightarrow> string \<Rightarrow> helper" where
  "DeviceClusteringAlgoBaseHelper ext f a =
     \<lparr>funcOp = f,
      op2cluster = foldl (\<lambda>m op. if skippedByHelper ext f a op then m else try_emplace m op)
                     Map.empty (funcBody f),
      candidates = []\<rparr>"

text \<open>\<open>getCluster\<close> of an operation, and of a value through its defining operation.\<close>

definition getCluster :: "nat \<Rightarrow> helper \<Rightarrow> (nat option \<times> helper) option" where
  "getCluster i h =
     (case op2cluster h i of
        None \<Rightarrow> Some (None, h)
      | Some it \<Rightarrow>
          (case getRoot (op2cluster h) i of
             None \<Rightarrow> None
           | Some (r, m') \<Rightarrow> Some (Some r, h\<lparr>op2cluster := m'\<rparr>)))"

fun getClusterOfValue :: "val \<Rightarrow> helper \<Rightarrow> (nat option \<times> helper) option" where
  "getClusterOfValue (OpResult d k) h = getCluster d h"
| "getClusterOfValue (BlockArgument k) h = Some (None, h)"

text \<open>The inner loops of the two directed strategies.\<close>

fun mergeOperands :: "bool \<Rightarrow> val list \<Rightarrow> nat option \<Rightarrow> helper \<Rightarrow> (nat option \<times> helper) option" where
  "mergeOperands ndebug [] curCluster h = Some (curCluster, h)"
| "mergeOperands ndebug (operand # rest) curCluster h =
     (case getClusterOfValue operand h of
        None \<Rightarrow> None
      | Some (preCluster, h1) \<Rightarrow>
          (case tryMerge ndebug preCluster curCluster h1 of
             None \<Rightarrow> None
           | Some (Some merged, h2) \<Rightarrow> mergeOperands ndebug rest (Some merged) h2
           | Some (None, h2) \<Rightarrow> mergeOperands ndebug rest curCluster h2))"

fun mergeUses :: "bool \<Rightarrow> operation list \<Rightarrow> nat option \<Rightarrow> helper \<Rightarrow> (nat option \<times> helper) option" where
  "mergeUses ndebug [] curCluster h = Some (curCluster, h)"
| "mergeUses ndebug (owner # rest) curCluster h =
     (case getCluster (opId owner) h of
        None \<Rightarrow> None
      | Some (preCluster, h1) \<Rightarrow>
          (case tryMerge ndebug preCluster curCluster h1 of
             None \<Rightarrow> None
           | Some (Some merged, h2) \<Rightarrow> mergeUses ndebug rest (Some merged) h2
           | Some (None, h2) \<Rightarrow> mergeUses ndebug rest curCluster h2))"

fun topDownLoop :: "bool \<Rightarrow> operation list \<Rightarrow> helper \<Rightarrow> helper option" where
  "topDownLoop ndebug [] h = Some h"
| "topDownLoop ndebug (op # rest) h =
     (case getCluster (opId op) h of
        None \<Rightarrow> None
      | Some (curCluster, h1) \<Rightarrow>
          (case mergeOperands ndebug (opOperands op) curCluster h1 of
             None \<Rightarrow> None
           | Some (c, h2) \<Rightarrow> topDownLoop ndebug rest h2))"

fun bottomUpLoop :: "bool \<Rightarrow> operation list \<Rightarrow> helper \<Rightarrow> helper option" where
  "bottomUpLoop ndebug [] h = Some h"
| "bottomUpLoop ndebug (op # rest) h =
     (case getCluster (opId op) h of
        None \<Rightarrow> None
      | Some (curCluster, h1) \<Rightarrow>
          (case mergeUses ndebug (getUses (funcOp h1) op) curCluster h1 of
             None \<Rightarrow> None
           | Some (c, h2) \<Rightarrow> bottomUpLoop ndebug rest h2))"

text \<open>The operations are collected from the block before the first merge moves any.\<close>

definition topDownMerge :: "bool \<Rightarrow> helper \<Rightarrow> helper option" where
  "topDownMerge ndebug h = topDownLoop ndebug (funcBody (funcOp h)) h"

definition bottomUpMerge :: "bool \<Rightarrow> helper \<Rightarrow> helper option" where
  "bottomUpMerge ndebug h = bottomUpLoop ndebug (rev (funcBody (funcOp h))) h"

subsection \<open>Candidates\<close>

definition numOps :: "OpClusterMap \<Rightarrow> nat \<Rightarrow> nat" where
  "numOps m c = (case m c of None \<Rightarrow> 0 | Some cl \<Rightarrow> length (operations cl))"

text \<open>
  Sorting with \<open>CompareByNumOps\<close>: larger clusters first. The sort of the work list is
  stable; the model sorts the candidates the same way.
\<close>

definition sortByNumOps :: "OpClusterMap \<Rightarrow> nat list \<Rightarrow> nat list" where
  "sortByNumOps m cs = sort_key (\<lambda>c. - int (numOps m c)) cs"

text \<open>
  One pass of the inner loop of \<open>populateCandidates\<close> over the rest of the work list:
  the running cluster, the entries that stay in the list, and the state.
\<close>

fun coalesce :: "bool \<Rightarrow> nat \<Rightarrow> nat list \<Rightarrow> helper \<Rightarrow> (nat \<times> nat list \<times> helper) option" where
  "coalesce ndebug cluster [] h = Some (cluster, [], h)"
| "coalesce ndebug cluster (it # rest) h =
     (case tryMerge ndebug (Some it) (Some cluster) h of
        None \<Rightarrow> None
      | Some (Some merged, h1) \<Rightarrow> coalesce ndebug merged rest h1
      | Some (None, h1) \<Rightarrow>
          (case coalesce ndebug cluster rest h1 of
             None \<Rightarrow> None
           | Some (c, kept, h2) \<Rightarrow> Some (c, it # kept, h2)))"

lemma coalesce_length:
  "coalesce ndebug cluster wl h = Some (c, kept, h') \<Longrightarrow> length kept \<le> length wl"
proof (induction wl arbitrary: cluster h c kept h')
  case Nil
  then show ?case by simp
next
  case (Cons it rest)
  show ?case
  proof (cases "tryMerge ndebug (Some it) (Some cluster) h")
    case None
    with Cons.prems show ?thesis by simp
  next
    case (Some res)
    obtain merged h1 where res: "res = (merged, h1)" by (cases res)
    show ?thesis
    proof (cases merged)
      case None
      with Cons.prems Some res obtain kept' where
        "coalesce ndebug cluster rest h1 = Some (c, kept', h')" "kept = it # kept'"
        by (auto split: option.splits)
      with Cons.IH show ?thesis by fastforce
    next
      case (Some mc)
      with Cons.prems \<open>tryMerge ndebug (Some it) (Some cluster) h = Some res\<close> res
      have "coalesce ndebug mc rest h1 = Some (c, kept, h')" by simp
      with Cons.IH have "length kept \<le> length rest" by blast
      then show ?thesis by simp
    qed
  qed
qed

function workListLoop :: "bool \<Rightarrow> nat list \<Rightarrow> nat list \<Rightarrow> helper \<Rightarrow> (nat list \<times> helper) option" where
  "workListLoop ndebug [] cands h = Some (cands, h)"
| "workListLoop ndebug (cluster # workList) cands h =
     (case coalesce ndebug cluster workList h of
        None \<Rightarrow> None
      | Some (c, kept, h1) \<Rightarrow> workListLoop ndebug kept (cands @ [c]) h1)"
  by pat_completeness auto
termination
  by (relation "measure (\<lambda>(ndebug, wl, cands, h). length wl)")
     (auto dest: coalesce_length)

text \<open>
  \<open>populateCandidates\<close>. The order in which the \<open>DenseMap\<close> is walked is not fixed by
  the program text; it is the parameter \<open>order\<close>, a list of the keys.
\<close>

definition populateCandidates :: "bool \<Rightarrow> nat list \<Rightarrow> helper \<Rightarrow> helper option" where
  "populateCandidates ndebug order h =
     (let workList = filter (\<lambda>c. case op2cluster h c of
                                   None \<Rightarrow> False
                                 | Some cl \<Rightarrow> mergedInto cl = None) order
      in case workListLoop ndebug (sortByNumOps (op2cluster h) workList) [] h of
           None \<Rightarrow> None
         | Some (cands, h1) \<Rightarrow>
             Some (h1\<lparr>candidates := sortByNumOps (op2cluster h1) cands\<rparr>))"

definition TopDownDeviceClustering ::
  "bool \<Rightarrow> externs \<Rightarrow> func \<Rightarrow> string \<Rightarrow> nat list \<Rightarrow> helper option" where
  "TopDownDeviceClustering ndebug ext f a order =
     (case topDownMerge ndebug (DeviceClusteringAlgoBaseHelper ext f a) of
        None \<Rightarrow> None
      | Some h \<Rightarrow> populateCandidates ndebug order h)"

definition BottomUpDeviceClustering ::
  "bool \<Rightarrow> externs \<Rightarrow> func \<Rightarrow> string \<Rightarrow> nat list \<Rightarrow> helper option" where
  "BottomUpDeviceClustering ndebug ext f a order =
     (case bottomUpMerge ndebug (DeviceClusteringAlgoBaseHelper ext f a) of
        None \<Rightarrow> None
      | Some h \<Rightarrow> populateCandidates ndebug order h)"

subsection \<open>Metadata of the candidates\<close>

definition clusterOps :: "OpClusterMap \<Rightarrow> nat \<Rightarrow> operation list" where
  "clusterOps m c = (case m c of None \<Rightarrow> [] | Some cl \<Rightarrow> operations cl)"

fun metadataLoop ::
  "externs \<Rightarrow> options \<Rightarrow> helper \<Rightarrow> nat list \<Rightarrow> FunctionMetadata list" where
  "metadataLoop ext opts h [] = []"
| "metadataLoop ext opts h (cluster # rest) =
     (if clusterOps (op2cluster h) cluster = [] then metadataLoop ext opts h rest
      else if rejects (validateSubGraphFn opts) (clusterOps (op2cluster h) cluster)
      then metadataLoop ext opts h rest
      else
        \<lparr>anchorName = deviceAnchorName opts, deviceAttr = device opts,
         originalName = funcName (funcOp h),
         inputs = getInputsOfCluster ext (clusterOps (op2cluster h) cluster),
         results = getOutputsOfCluster ext (clusterOps (op2cluster h) cluster)
                     (if dupOutputs opts then Some (retStats (funcRet (funcOp h))) else None),
         ops = clusterOps (op2cluster h) cluster\<rparr>
        # (if \<not> enableMultiGraph opts then [] else metadataLoop ext opts h rest))"

definition getFunctionMetadatas ::
  "externs \<Rightarrow> options \<Rightarrow> helper \<Rightarrow> FunctionMetadata list option" where
  "getFunctionMetadatas ext opts h =
     (case candidates h of
        [] \<Rightarrow> None
      | firstCluster # rest \<Rightarrow>
          if clusterOps (op2cluster h) firstCluster = [] then None
          else Some (metadataLoop ext opts h (candidates h)))"

subsection \<open>The driver, for one function\<close>

datatype GraphClusteringAlgo = kTopDown | kBottomUp | kGreedy | kFallback

text \<open>
  The walk order of the cluster map in each of the up to three helpers the greedy
  strategy builds (on the two clones and on the function itself).
\<close>

record denseOrders =
  orderTopDownClone :: "nat list"
  orderBottomUpClone :: "nat list"
  orderOriginal :: "nat list"

definition totalOps :: "FunctionMetadata list \<Rightarrow> nat" where
  "totalOps ms = foldl (\<lambda>val metadata. val + length (ops metadata)) 0 ms"

text \<open>
  The metadata a strategy computes and the function as the strategy leaves it (merging
  reorders its block). The clones of the greedy strategy are erased after the comparison.
\<close>

definition runTopDown ::
  "bool \<Rightarrow> externs \<Rightarrow> options \<Rightarrow> nat list \<Rightarrow> func \<Rightarrow> (FunctionMetadata list option \<times> func) option" where
  "runTopDown ndebug ext opts order f =
     (case TopDownDeviceClustering ndebug ext f (attrName opts) order of
        None \<Rightarrow> None
      | Some h \<Rightarrow> Some (getFunctionMetadatas ext opts h, funcOp h))"

definition runBottomUp ::
  "bool \<Rightarrow> externs \<Rightarrow> options \<Rightarrow> nat list \<Rightarrow> func \<Rightarrow> (FunctionMetadata list option \<times> func) option" where
  "runBottomUp ndebug ext opts order f =
     (case BottomUpDeviceClustering ndebug ext f (attrName opts) order of
        None \<Rightarrow> None
      | Some h \<Rightarrow> Some (getFunctionMetadatas ext opts h, funcOp h))"

definition runGreedy ::
  "bool \<Rightarrow> externs \<Rightarrow> options \<Rightarrow> denseOrders \<Rightarrow> func \<Rightarrow> (FunctionMetadata list option \<times> func) option" where
  "runGreedy ndebug ext opts orders f =
     (let topDownFunc = cloneFunc ext f; bottomUpFunc = cloneFunc ext f in
      case runTopDown ndebug ext opts (orderTopDownClone orders) topDownFunc of
        None \<Rightarrow> None
      | Some (topDownMetadatas, topDownFunc') \<Rightarrow>
          (case runBottomUp ndebug ext opts (orderBottomUpClone orders) bottomUpFunc of
             None \<Rightarrow> None
           | Some (bottomUpMetadatas, bottomUpFunc') \<Rightarrow>
               (case (topDownMetadatas, bottomUpMetadatas) of
                  (Some td, Some bu) \<Rightarrow>
                    if totalOps td > totalOps bu
                    then runTopDown ndebug ext opts (orderOriginal orders) f
                    else runBottomUp ndebug ext opts (orderOriginal orders) f
                | (Some td, None) \<Rightarrow> runTopDown ndebug ext opts (orderOriginal orders) f
                | (None, Some bu) \<Rightarrow> runBottomUp ndebug ext opts (orderOriginal orders) f
                | (None, None) \<Rightarrow> Some (None, f))))"

definition computeMetadatas ::
  "bool \<Rightarrow> externs \<Rightarrow> options \<Rightarrow> GraphClusteringAlgo \<Rightarrow> denseOrders \<Rightarrow> func
   \<Rightarrow> (FunctionMetadata list option \<times> func) option" where
  "computeMetadatas ndebug ext opts algo orders f =
     (case algo of
        kTopDown \<Rightarrow> runTopDown ndebug ext opts (orderOriginal orders) f
      | kBottomUp \<Rightarrow> runBottomUp ndebug ext opts (orderOriginal orders) f
      | kGreedy \<Rightarrow> runGreedy ndebug ext opts orders f
      | kFallback \<Rightarrow> Some (getFunctionMetadatasFallback ext f opts, f))"

datatype LogicalResult = success | failure

text \<open>
  The verdict of \<open>GraphClustingByDevice\<close> on one function: an absent metadata list is
  the diagnostic on the function and the failure of the pass; any list, the empty one
  too, goes on to \<open>createFunctions\<close> and \<open>createCalls\<close>.
\<close>

definition GraphClustingByDevice ::
  "bool \<Rightarrow> externs \<Rightarrow> options \<Rightarrow> GraphClusteringAlgo \<Rightarrow> denseOrders \<Rightarrow> func
   \<Rightarrow> (LogicalResult \<times> FunctionMetadata list) option" where
  "GraphClustingByDevice ndebug ext opts algo orders f =
     (case computeMetadatas ndebug ext opts algo orders f of
        None \<Rightarrow> None
      | Some (None, f') \<Rightarrow> Some (failure, [])
      | Some (Some metadatas, f') \<Rightarrow> Some (success, metadatas))"

section \<open>Wiring the call results\<close>

text \<open>
  The part of \<open>createCalls\<close> that replaces the results of one metadata entry by the
  results of its call: the state is the operations of the block, the terminator and
  the map \<open>retOperand2Indices\<close>.
\<close>

fun replaceUses :: "val \<Rightarrow> val \<Rightarrow> operation \<Rightarrow> operation" where
  "replaceUses v n (Operation i os as k rs) =
     Operation i (map (\<lambda>x. if x = v then n else x) os) as k
       (map (map (map (replaceUses v n))) rs)"

fun setOperand :: "nat \<Rightarrow> val \<Rightarrow> operation \<Rightarrow> operation" where
  "setOperand idx n (Operation i os as k rs) = Operation i (os[idx := n]) as k rs"

text \<open>The indices of every operand of the terminator, pushed from the last one down.\<close>

definition retOperand2Indices :: "operation \<Rightarrow> (val \<rightharpoonup> nat list)" where
  "retOperand2Indices retOp =
     foldl (\<lambda>m i. let value = opOperands retOp ! i in
                   m(value \<mapsto> (case m value of None \<Rightarrow> [] | Some is \<Rightarrow> is) @ [i]))
       Map.empty (rev [0..<length (opOperands retOp)])"

fun wireResults ::
  "bool \<Rightarrow> nat \<Rightarrow> nat \<Rightarrow> val list \<Rightarrow> operation list \<times> operation \<times> (val \<rightharpoonup> nat list)
   \<Rightarrow> (operation list \<times> operation \<times> (val \<rightharpoonup> nat list)) option" where
  "wireResults dup call i [] st = Some st"
| "wireResults dup call i (originalValue # rest) (body, retOp, indices) =
     (let newValue = OpResult call i in
      if dup then
        (let body' = map (replaceUses originalValue newValue) body in
         case indices originalValue of
           None \<Rightarrow> wireResults dup call (Suc i) rest (body', retOp, indices)
         | Some is \<Rightarrow>
             if is = [] then None
             else wireResults dup call (Suc i) rest
                    (body', setOperand (last is) newValue retOp,
                     indices(originalValue \<mapsto> butlast is)))
      else wireResults dup call (Suc i) rest
             (map (replaceUses originalValue newValue) body,
              replaceUses originalValue newValue retOp, indices))"

text \<open>
  One metadata entry, whose cloned call operation has the identity \<open>call\<close>; and all
  entries in order, each with the identity of its call.
\<close>

definition wireCall ::
  "bool \<Rightarrow> nat \<Rightarrow> val list \<Rightarrow> operation list \<times> operation
   \<Rightarrow> (operation list \<times> operation) option" where
  "wireCall dup call rs st =
     (case wireResults dup call 0 rs (fst st, snd st, retOperand2Indices (snd st)) of
        None \<Rightarrow> None
      | Some (body', retOp', indices') \<Rightarrow> Some (body', retOp'))"

fun createCalls ::
  "bool \<Rightarrow> (FunctionMetadata \<times> nat) list \<Rightarrow> operation list \<times> operation
   \<Rightarrow> (operation list \<times> operation) option" where
  "createCalls dup [] st = Some st"
| "createCalls dup ((metadata, call) # rest) st =
     (case wireCall dup call (results metadata) st of
        None \<Rightarrow> None
      | Some st' \<Rightarrow> createCalls dup rest st')"

section \<open>Example functions\<close>

text \<open>
  A device tag under the attribute \<open>device\<close>; helpers that report no inputs and
  outputs; no validation predicate; only the largest cluster is emitted.
\<close>

definition exExt :: externs where
  "exExt = \<lparr>getInputsOfCluster = (\<lambda>xs. []), getOutputsOfCluster = (\<lambda>xs stats. []),
            isMhloConstantLike = (\<lambda>op. False), getHostAnchorName = ''host_anchor'',
            cloneFunc = (\<lambda>f. f)\<rparr>"

definition exOpts :: options where
  "exOpts = \<lparr>attrName = ''device'', device = ''cuda'', deviceAnchorName = ''cuda_anchor'',
             dupOutputs = False, enableMultiGraph = False, validateSubGraphFn = None\<rparr>"

text \<open>The block \<open>[a, b(a)]\<close> returning \<open>b\<close>, with no host operation.\<close>

definition pairA :: operation where
  "pairA = Operation 1 [] [] 1 []"

definition pairB :: operation where
  "pairB = Operation 2 [OpResult 1 0] [] 1 []"

definition pairRet :: operation where
  "pairRet = Operation 3 [OpResult 2 0] [] 0 []"

definition pairFunc :: func where
  "pairFunc = \<lparr>funcName = ''main'', funcBody = [pairA, pairB], funcRet = pairRet,
               funcUses = (\<lambda>v. if v = OpResult 1 0 then [pairB]
                                else if v = OpResult 2 0 then [pairRet] else [])\<rparr>"

definition pairHelper :: helper where
  "pairHelper = DeviceClusteringAlgoBaseHelper exExt pairFunc ''device''"

section \<open>Roots\<close>

definition isRoot :: "OpClusterMap \<Rightarrow> nat \<Rightarrow> bool" where
  "isRoot m c = (case m c of None \<Rightarrow> False | Some cl \<Rightarrow> mergedInto cl = None)"

section \<open>The guards of tryMerge\<close>

lemma tryMerge_success_roots:
  assumes "tryMerge ndebug lhs rhs h = Some (Some s, h')"
  shows "\<exists>l r. lhs = Some l \<and> rhs = Some r \<and> l \<noteq> r \<and> isRoot (op2cluster h) l
               \<and> isRoot (op2cluster h) r \<and> (s = l \<or> s = r)"
proof -
  from assms obtain l r where lr: "lhs = Some l" "rhs = Some r"
    by (cases lhs; cases rhs) (auto simp: tryMerge_def)
  from assms lr have ne: "l \<noteq> r" by (auto simp: tryMerge_def)
  from assms lr ne obtain lc rc where c: "op2cluster h l = Some lc" "op2cluster h r = Some rc"
    by (cases "op2cluster h l"; cases "op2cluster h r") (auto simp: tryMerge_def)
  from assms lr ne c have roots: "mergedInto lc = None" "mergedInto rc = None"
    by (auto simp: tryMerge_def split: if_splits)
  from assms lr ne c roots have "s = l \<or> s = r"
    by (auto simp: tryMerge_def split: option.splits bool.splits)
  with lr ne c roots show ?thesis by (simp add: isRoot_def)
qed

text \<open>
  C10. \<open>tryMerge\<close> returns the null pointer and leaves the whole state as it is when
  an argument is null, when both arguments are the same cluster, or when one of them has
  its \<open>mergedInto\<close> link set; a merge that succeeds was asked for two distinct roots, and
  the cluster returned is one of the two.
\<close>

theorem tryMerge_guards:
  "((lhs = None \<or> rhs = None \<or> lhs = rhs
      \<or> (\<exists>l r lc rc. lhs = Some l \<and> rhs = Some r \<and> op2cluster h l = Some lc
             \<and> op2cluster h r = Some rc \<and> (mergedInto lc \<noteq> None \<or> mergedInto rc \<noteq> None)))
     \<longrightarrow> tryMerge ndebug lhs rhs h = Some (None, h))
   \<and> (tryMerge ndebug lhs rhs h = Some (Some s, h')
     \<longrightarrow> (\<exists>l r. lhs = Some l \<and> rhs = Some r \<and> l \<noteq> r
            \<and> isRoot (op2cluster h) l \<and> isRoot (op2cluster h) r \<and> (s = l \<or> s = r)))"
proof (intro conjI impI)
  assume "lhs = None \<or> rhs = None \<or> lhs = rhs
      \<or> (\<exists>l r lc rc. lhs = Some l \<and> rhs = Some r \<and> op2cluster h l = Some lc
             \<and> op2cluster h r = Some rc \<and> (mergedInto lc \<noteq> None \<or> mergedInto rc \<noteq> None))"
  then show "tryMerge ndebug lhs rhs h = Some (None, h)"
    by (auto simp: tryMerge_def split: option.splits)
next
  assume "tryMerge ndebug lhs rhs h = Some (Some s, h')"
  then show "\<exists>l r. lhs = Some l \<and> rhs = Some r \<and> l \<noteq> r
            \<and> isRoot (op2cluster h) l \<and> isRoot (op2cluster h) r \<and> (s = l \<or> s = r)"
    by (rule tryMerge_success_roots)
qed

theorem tryMerge_guards_witness:
  "tryMerge False None (Some 2) pairHelper = Some (None, pairHelper)
   \<and> tryMerge False (Some 1) None pairHelper = Some (None, pairHelper)
   \<and> tryMerge False (Some 1) (Some 1) pairHelper = Some (None, pairHelper)
   \<and> (\<exists>h1. tryMerge False (Some 1) (Some 2) pairHelper = Some (Some 2, h1)
          \<and> isRoot (op2cluster pairHelper) 1 \<and> isRoot (op2cluster pairHelper) 2
          \<and> tryMerge False (Some 1) (Some 2) h1 = Some (None, h1))"
proof -
  have a: "tryMerge False None (Some 2) pairHelper = Some (None, pairHelper)"
    using tryMerge_guards[of None "Some 2" pairHelper False] by simp
  have b: "tryMerge False (Some 1) None pairHelper = Some (None, pairHelper)"
    using tryMerge_guards[of "Some 1" None pairHelper False] by simp
  have c: "tryMerge False (Some 1) (Some 1) pairHelper = Some (None, pairHelper)"
    using tryMerge_guards[of "Some 1" "Some 1" pairHelper False] by simp
  have "map_option fst (tryMerge False (Some 1) (Some 2) pairHelper) = Some (Some 2)"
    by code_simp
  then obtain h1 where m: "tryMerge False (Some 1) (Some 2) pairHelper = Some (Some 2, h1)"
    by auto
  with tryMerge_guards[of "Some 1" "Some 2" pairHelper False 2 h1]
  have r: "isRoot (op2cluster pairHelper) 1" "isRoot (op2cluster pairHelper) 2" by auto
  have "(case tryMerge False (Some 1) (Some 2) pairHelper of
           Some (r, h) \<Rightarrow> map_option (\<lambda>cl. mergedInto cl \<noteq> None) (op2cluster h 1) = Some True
                          \<and> op2cluster h 2 \<noteq> None
         | None \<Rightarrow> False)"
    by code_simp
  with m obtain lc rc where "op2cluster h1 1 = Some lc" "mergedInto lc \<noteq> None" "op2cluster h1 2 = Some rc"
    by auto
  with tryMerge_guards[of "Some 1" "Some 2" h1 False]
  have d: "tryMerge False (Some 1) (Some 2) h1 = Some (None, h1)" by blast
  from a b c m r d show ?thesis by blast
qed

section \<open>Validation of the candidates\<close>

text \<open>The metadata entry built for a candidate, and the test that lets a candidate pass.\<close>

definition deviceMetadata :: "externs \<Rightarrow> options \<Rightarrow> helper \<Rightarrow> nat \<Rightarrow> FunctionMetadata" where
  "deviceMetadata ext opts h c =
     \<lparr>anchorName = deviceAnchorName opts, deviceAttr = device opts,
      originalName = funcName (funcOp h),
      inputs = getInputsOfCluster ext (clusterOps (op2cluster h) c),
      results = getOutputsOfCluster ext (clusterOps (op2cluster h) c)
                  (if dupOutputs opts then Some (retStats (funcRet (funcOp h))) else None),
      ops = clusterOps (op2cluster h) c\<rparr>"

definition accepted :: "options \<Rightarrow> helper \<Rightarrow> nat \<Rightarrow> bool" where
  "accepted opts h c =
     (clusterOps (op2cluster h) c \<noteq> []
      \<and> \<not> rejects (validateSubGraphFn opts) (clusterOps (op2cluster h) c))"


lemma metadataLoop_multi:
  "enableMultiGraph opts \<Longrightarrow>
   metadataLoop ext opts h cs = map (deviceMetadata ext opts h) (filter (accepted opts h) cs)"
  by (induction cs) (auto simp: accepted_def deviceMetadata_def)








text \<open>
  The block \<open>[a, h(a), c(h), d(c)]\<close> with \<open>h\<close> marked host, returning \<open>d\<close>; a validation
  predicate that rejects everything, and one that rejects clusters of two and more.
\<close>

definition splitA :: operation where "splitA = Operation 1 [] [] 1 []"
definition splitH :: operation where
  "splitH = Operation 2 [OpResult 1 0] [(''device'', ''host'')] 1 []"
definition splitC :: operation where "splitC = Operation 3 [OpResult 2 0] [] 1 []"
definition splitD :: operation where "splitD = Operation 4 [OpResult 3 0] [] 1 []"
definition splitRet :: operation where "splitRet = Operation 5 [OpResult 4 0] [] 0 []"
definition splitFunc :: func where
  "splitFunc = \<lparr>funcName = ''main'', funcBody = [splitA, splitH, splitC, splitD],
                funcRet = splitRet,
                funcUses = (\<lambda>v. if v = OpResult 1 0 then [splitH]
                                 else if v = OpResult 2 0 then [splitC]
                                 else if v = OpResult 3 0 then [splitD]
                                 else if v = OpResult 4 0 then [splitRet] else [])\<rparr>"

definition splitOrders :: denseOrders where
  "splitOrders = \<lparr>orderTopDownClone = [1, 3, 4], orderBottomUpClone = [1, 3, 4],
                  orderOriginal = [1, 3, 4]\<rparr>"

definition rejectPairs :: options where
  "rejectPairs = exOpts\<lparr>validateSubGraphFn := Some (\<lambda>xs. length xs < 2)\<rparr>"







section \<open>The greedy strategy\<close>

text \<open>
  Example functions whose use-lists are in block order. In \<open>forkFunc\<close> the top-down
  strategy covers three operations and the bottom-up strategy two; in \<open>joinFunc\<close> it is
  the other way round.
\<close>

definition blockOrderUses :: "operation list \<Rightarrow> val \<Rightarrow> operation list" where
  "blockOrderUses xs v = concat (map (\<lambda>x. replicate (count_list (opOperands x) v) x) xs)"

definition mkFunc :: "operation list \<Rightarrow> operation \<Rightarrow> func" where
  "mkFunc body ret = \<lparr>funcName = ''main'', funcBody = body, funcRet = ret,
                       funcUses = blockOrderUses (body @ [ret])\<rparr>"

definition forkFunc :: func where
  "forkFunc = mkFunc
     [Operation 1 [] [] 1 [],
      Operation 2 [OpResult 1 0] [] 1 [],
      Operation 3 [OpResult 1 0] [] 1 [],
      Operation 4 [OpResult 1 0] [(''device'', ''host'')] 1 [],
      Operation 5 [OpResult 2 0, OpResult 4 0] [] 1 []]
     (Operation 6 [OpResult 5 0, OpResult 3 0] [] 0 [])"

definition joinFunc :: func where
  "joinFunc = mkFunc
     [Operation 1 [] [] 1 [],
      Operation 2 [OpResult 1 0] [(''device'', ''host'')] 1 [],
      Operation 3 [OpResult 2 0] [] 1 [],
      Operation 4 [OpResult 1 0] [] 1 [],
      Operation 5 [OpResult 2 0, OpResult 4 0] [] 1 []]
     (Operation 6 [OpResult 5 0, OpResult 3 0] [] 0 [])"

definition allOrders :: "nat list \<Rightarrow> denseOrders" where
  "allOrders ks = \<lparr>orderTopDownClone = ks, orderBottomUpClone = ks, orderOriginal = ks\<rparr>"


lemma totalOps_sum: "totalOps ms = sum_list (map (\<lambda>metadata. length (ops metadata)) ms)"
proof -
  have "foldl (\<lambda>val metadata. val + length (ops metadata)) k ms
          = k + sum_list (map (\<lambda>metadata. length (ops metadata)) ms)" for k
    by (induction ms arbitrary: k) simp_all
  then show ?thesis by (simp add: totalOps_def)
qed

text \<open>
  C7. The greedy strategy runs top-down on one clone and bottom-up on another,
  compares the numbers of operations their metadata entries cover, and runs on the
  function itself the strategy with the strictly larger number, bottom-up on a tie, or
  the only one that gave a result. Nothing of the clones is left in the outcome.
\<close>

theorem greedy_picks_larger:
  assumes "runTopDown ndebug ext opts (orderTopDownClone orders) (cloneFunc ext f) = Some (topDown, fT)"
      and "runBottomUp ndebug ext opts (orderBottomUpClone orders) (cloneFunc ext f) = Some (bottomUp, fB)"
  shows "computeMetadatas ndebug ext opts kGreedy orders f =
           (case (topDown, bottomUp) of
              (Some td, Some bu) \<Rightarrow>
                if sum_list (map (\<lambda>metadata. length (ops metadata)) td)
                     > sum_list (map (\<lambda>metadata. length (ops metadata)) bu)
                then runTopDown ndebug ext opts (orderOriginal orders) f
                else runBottomUp ndebug ext opts (orderOriginal orders) f
            | (Some td, None) \<Rightarrow> runTopDown ndebug ext opts (orderOriginal orders) f
            | (None, Some bu) \<Rightarrow> runBottomUp ndebug ext opts (orderOriginal orders) f
            | (None, None) \<Rightarrow> Some (None, f))"
  using assms
  by (simp add: computeMetadatas_def runGreedy_def totalOps_sum split: option.splits)


theorem greedy_picks_larger_witness:
  "computeMetadatas False exExt exOpts kGreedy (allOrders [1, 2, 3, 5]) forkFunc
     = runTopDown False exExt exOpts [1, 2, 3, 5] forkFunc
   \<and> map_option (\<lambda>(ms, f). (map_option (map (map opId \<circ> ops)) ms, map opId (funcBody f)))
        (computeMetadatas False exExt exOpts kGreedy (allOrders [1, 2, 3, 5]) forkFunc)
       = Some (Some [[1, 2, 3]], [1, 2, 3, 4, 5])
   \<and> computeMetadatas False exExt exOpts kGreedy (allOrders [1, 3, 4, 5]) joinFunc
     = runBottomUp False exExt exOpts [1, 3, 4, 5] joinFunc
   \<and> map_option (\<lambda>(ms, f). (map_option (map (map opId \<circ> ops)) ms, map opId (funcBody f)))
        (computeMetadatas False exExt exOpts kGreedy (allOrders [1, 3, 4, 5]) joinFunc)
       = Some (Some [[3, 4, 5]], [1, 2, 3, 4, 5])
   \<and> computeMetadatas False exExt exOpts kGreedy (allOrders [1, 2]) pairFunc
     = runBottomUp False exExt exOpts [1, 2] pairFunc"
proof -
  have c: "cloneFunc exExt = (\<lambda>f. f)" by (simp add: exExt_def)
  have o: "orderTopDownClone (allOrders ks) = ks" "orderBottomUpClone (allOrders ks) = ks"
    "orderOriginal (allOrders ks) = ks" for ks
    by (simp_all add: allOrders_def)
  have "map_option (map_option (map (\<lambda>metadata. length (ops metadata))) \<circ> fst)
          (runTopDown False exExt exOpts [1, 2, 3, 5] forkFunc) = Some (Some [3])"
    by code_simp
  then obtain td1 fT1 where t1: "runTopDown False exExt exOpts [1, 2, 3, 5] forkFunc = Some (Some td1, fT1)"
    and lt1: "map (\<lambda>metadata. length (ops metadata)) td1 = [3]" by auto
  have "map_option (map_option (map (\<lambda>metadata. length (ops metadata))) \<circ> fst)
          (runBottomUp False exExt exOpts [1, 2, 3, 5] forkFunc) = Some (Some [2])"
    by code_simp
  then obtain bu1 fB1 where b1: "runBottomUp False exExt exOpts [1, 2, 3, 5] forkFunc = Some (Some bu1, fB1)"
    and lb1: "map (\<lambda>metadata. length (ops metadata)) bu1 = [2]" by auto
  have g1: "computeMetadatas False exExt exOpts kGreedy (allOrders [1, 2, 3, 5]) forkFunc
              = runTopDown False exExt exOpts [1, 2, 3, 5] forkFunc"
    using greedy_picks_larger[of False exExt exOpts "allOrders [1, 2, 3, 5]" forkFunc "Some td1" fT1
                                "Some bu1" fB1] t1 b1 lt1 lb1
    by (simp add: c o)
  have e1: "map_option (\<lambda>(ms, f). (map_option (map (map opId \<circ> ops)) ms, map opId (funcBody f)))
              (runTopDown False exExt exOpts [1, 2, 3, 5] forkFunc)
            = Some (Some [[1, 2, 3]], [1, 2, 3, 4, 5])"
    by code_simp
  have "map_option (map_option (map (\<lambda>metadata. length (ops metadata))) \<circ> fst)
          (runTopDown False exExt exOpts [1, 3, 4, 5] joinFunc) = Some (Some [2])"
    by code_simp
  then obtain td2 fT2 where t2: "runTopDown False exExt exOpts [1, 3, 4, 5] joinFunc = Some (Some td2, fT2)"
    and lt2: "map (\<lambda>metadata. length (ops metadata)) td2 = [2]" by auto
  have "map_option (map_option (map (\<lambda>metadata. length (ops metadata))) \<circ> fst)
          (runBottomUp False exExt exOpts [1, 3, 4, 5] joinFunc) = Some (Some [3])"
    by code_simp
  then obtain bu2 fB2 where b2: "runBottomUp False exExt exOpts [1, 3, 4, 5] joinFunc = Some (Some bu2, fB2)"
    and lb2: "map (\<lambda>metadata. length (ops metadata)) bu2 = [3]" by auto
  have g2: "computeMetadatas False exExt exOpts kGreedy (allOrders [1, 3, 4, 5]) joinFunc
              = runBottomUp False exExt exOpts [1, 3, 4, 5] joinFunc"
    using greedy_picks_larger[of False exExt exOpts "allOrders [1, 3, 4, 5]" joinFunc "Some td2" fT2
                                "Some bu2" fB2] t2 b2 lt2 lb2
    by (simp add: c o)
  have e2: "map_option (\<lambda>(ms, f). (map_option (map (map opId \<circ> ops)) ms, map opId (funcBody f)))
              (runBottomUp False exExt exOpts [1, 3, 4, 5] joinFunc)
            = Some (Some [[3, 4, 5]], [1, 2, 3, 4, 5])"
    by code_simp
  have "map_option (map_option (map (\<lambda>metadata. length (ops metadata))) \<circ> fst)
          (runTopDown False exExt exOpts [1, 2] pairFunc) = Some (Some [2])"
    by code_simp
  then obtain td3 fT3 where t3: "runTopDown False exExt exOpts [1, 2] pairFunc = Some (Some td3, fT3)"
    and lt3: "map (\<lambda>metadata. length (ops metadata)) td3 = [2]" by auto
  have "map_option (map_option (map (\<lambda>metadata. length (ops metadata))) \<circ> fst)
          (runBottomUp False exExt exOpts [1, 2] pairFunc) = Some (Some [2])"
    by code_simp
  then obtain bu3 fB3 where b3: "runBottomUp False exExt exOpts [1, 2] pairFunc = Some (Some bu3, fB3)"
    and lb3: "map (\<lambda>metadata. length (ops metadata)) bu3 = [2]" by auto
  have g3: "computeMetadatas False exExt exOpts kGreedy (allOrders [1, 2]) pairFunc
              = runBottomUp False exExt exOpts [1, 2] pairFunc"
    using greedy_picks_larger[of False exExt exOpts "allOrders [1, 2]" pairFunc "Some td3" fT3
                                "Some bu3" fB3] t3 b3 lt3 lb3
    by (simp add: c o)
  from g1 e1 g2 e2 g3 show ?thesis by simp
qed


section \<open>Roots and path compression\<close>

lemmas getRoot_induct = getRoot.raw_induct[rotated 1, consumes 1, case_names step]

inductive rootOf :: "OpClusterMap \<Rightarrow> nat \<Rightarrow> nat \<Rightarrow> bool" for m where
  rootHere: "m c = Some cl \<Longrightarrow> mergedInto cl = None \<Longrightarrow> rootOf m c c"
| rootStep: "m c = Some cl \<Longrightarrow> mergedInto cl = Some p \<Longrightarrow> rootOf m p r \<Longrightarrow> rootOf m c r"

lemma rootOf_isRoot: "rootOf m c r \<Longrightarrow> isRoot m r"
  by (induction rule: rootOf.induct) (simp_all add: isRoot_def)

lemma rootOf_dom: "rootOf m c r \<Longrightarrow> c \<in> dom m"
  by (induction rule: rootOf.induct) auto

lemma rootOf_root: "isRoot m c \<Longrightarrow> rootOf m c r \<longleftrightarrow> r = c"
  by (auto simp: isRoot_def split: option.splits elim: rootOf.cases intro: rootOf.intros)

lemma rootOf_unique: "rootOf m c r \<Longrightarrow> rootOf m c r' \<Longrightarrow> r' = r"
proof (induction arbitrary: r' rule: rootOf.induct)
  case (rootHere c cl)
  then show ?case by (auto elim: rootOf.cases)
next
  case (rootStep c cl p r)
  from rootStep.prems rootStep.hyps(1,2) have "rootOf m p r'"
    by (auto elim: rootOf.cases)
  then show ?case by (rule rootStep.IH)
qed

text \<open>
  Two cluster maps that differ by path compression only: the same clusters, every
  cluster with the same root, and every record either untouched or, when its link was
  set, with the link now at its root.
\<close>

definition compressed :: "OpClusterMap \<Rightarrow> OpClusterMap \<Rightarrow> bool" where
  "compressed m m' =
     (dom m' = dom m
      \<and> (\<forall>c r. rootOf m' c r = rootOf m c r)
      \<and> (\<forall>c cl. m c = Some cl \<longrightarrow>
             m' c = Some cl
             \<or> (mergedInto cl \<noteq> None
                \<and> (\<exists>r. rootOf m c r \<and> m' c = Some (cl\<lparr>mergedInto := Some r\<rparr>)))))"

lemma compressed_refl: "compressed m m"
  by (simp add: compressed_def)

lemma compressed_dom: "compressed m m' \<Longrightarrow> dom m' = dom m"
  by (simp add: compressed_def)

lemma compressed_rootOf: "compressed m m' \<Longrightarrow> rootOf m' c r = rootOf m c r"
  by (simp add: compressed_def)

lemma compressed_None: "compressed m m' \<Longrightarrow> m' c = None \<longleftrightarrow> m c = None"
  using compressed_dom[of m m'] by (metis domIff)

lemma compressed_Some:
  assumes "compressed m m'" and "m c = Some cl"
  obtains cl' where "m' c = Some cl'" "operations cl' = operations cl"
    "mergedInto cl' = None \<longleftrightarrow> mergedInto cl = None"
    "mergedInto cl = None \<Longrightarrow> cl' = cl"
proof -
  from assms have "m' c = Some cl
      \<or> (mergedInto cl \<noteq> None \<and> (\<exists>r. rootOf m c r \<and> m' c = Some (cl\<lparr>mergedInto := Some r\<rparr>)))"
    unfolding compressed_def by blast
  then show ?thesis
  proof
    assume "m' c = Some cl"
    then show ?thesis by (intro that[of cl]) simp_all
  next
    assume "mergedInto cl \<noteq> None \<and> (\<exists>r. rootOf m c r \<and> m' c = Some (cl\<lparr>mergedInto := Some r\<rparr>))"
    then obtain r where "mergedInto cl \<noteq> None" "m' c = Some (cl\<lparr>mergedInto := Some r\<rparr>)" by blast
    then show ?thesis by (intro that[of "cl\<lparr>mergedInto := Some r\<rparr>"]) simp_all
  qed
qed

lemma compressed_operations:
  assumes "compressed m m'"
  shows "map_option operations (m' c) = map_option operations (m c)"
proof (cases "m c")
  case None
  then have "m' c = None" using compressed_None[OF assms, of c] by simp
  with None show ?thesis by simp
next
  case (Some cl)
  obtain cl' where "m' c = Some cl'" "operations cl' = operations cl"
    by (rule compressed_Some[OF assms Some])
  with Some show ?thesis by simp
qed

lemma compressed_clusterOps: "compressed m m' \<Longrightarrow> clusterOps m' c = clusterOps m c"
  using compressed_operations[of m m' c]
  by (cases "m c"; cases "m' c") (auto simp: clusterOps_def)

lemma compressed_isRoot:
  assumes "compressed m m'"
  shows "isRoot m' c = isRoot m c"
proof (cases "m c")
  case None
  then have "m' c = None" using compressed_None[OF assms, of c] by simp
  with None show ?thesis by (simp add: isRoot_def)
next
  case (Some cl)
  obtain cl' where "m' c = Some cl'" "mergedInto cl' = None \<longleftrightarrow> mergedInto cl = None"
    by (rule compressed_Some[OF assms Some])
  with Some show ?thesis by (simp add: isRoot_def)
qed

lemma compressed_root_eq:
  assumes c: "compressed m m'" and r: "isRoot m c"
  shows "m' c = m c"
proof -
  from r obtain cl where cl: "m c = Some cl" "mergedInto cl = None"
    by (auto simp: isRoot_def split: option.splits)
  obtain cl' where "m' c = Some cl'" "cl' = cl"
    using cl(2) by (auto intro: compressed_Some[OF c cl(1)])
  with cl show ?thesis by simp
qed

lemma compressed_trans:
  assumes a: "compressed m m1" and b: "compressed m1 m2"
  shows "compressed m m2"
  unfolding compressed_def
proof (intro conjI allI impI)
  show "dom m2 = dom m" using a b by (simp add: compressed_def)
  show "rootOf m2 c r = rootOf m c r" for c r using a b by (simp add: compressed_def)
  fix c cl
  assume mc: "m c = Some cl"
  from a mc have s1: "m1 c = Some cl
      \<or> (mergedInto cl \<noteq> None \<and> (\<exists>r. rootOf m c r \<and> m1 c = Some (cl\<lparr>mergedInto := Some r\<rparr>)))"
    by (simp add: compressed_def)
  show "m2 c = Some cl
      \<or> (mergedInto cl \<noteq> None \<and> (\<exists>r. rootOf m c r \<and> m2 c = Some (cl\<lparr>mergedInto := Some r\<rparr>)))"
  proof (cases "m1 c = Some cl")
    case True
    with b have "m2 c = Some cl
      \<or> (mergedInto cl \<noteq> None \<and> (\<exists>r. rootOf m1 c r \<and> m2 c = Some (cl\<lparr>mergedInto := Some r\<rparr>)))"
      by (simp add: compressed_def)
    with a show ?thesis by (simp add: compressed_def)
  next
    case False
    with s1 obtain r where nr: "mergedInto cl \<noteq> None" and r: "rootOf m c r"
      and m1c: "m1 c = Some (cl\<lparr>mergedInto := Some r\<rparr>)" by blast
    from b m1c have "m2 c = Some (cl\<lparr>mergedInto := Some r\<rparr>)
      \<or> (\<exists>r'. rootOf m1 c r' \<and> m2 c = Some (cl\<lparr>mergedInto := Some r, mergedInto := Some r'\<rparr>))"
      unfolding compressed_def by blast
    then show ?thesis
    proof
      assume "m2 c = Some (cl\<lparr>mergedInto := Some r\<rparr>)"
      with nr r show ?thesis by blast
    next
      assume "\<exists>r'. rootOf m1 c r' \<and> m2 c = Some (cl\<lparr>mergedInto := Some r, mergedInto := Some r'\<rparr>)"
      then obtain r' where r': "rootOf m1 c r'"
        and m2c: "m2 c = Some (cl\<lparr>mergedInto := Some r, mergedInto := Some r'\<rparr>)" by blast
      from r' a have "rootOf m c r'" by (simp add: compressed_def)
      with r have "r' = r" by (rule rootOf_unique)
      with m2c have "m2 c = Some (cl\<lparr>mergedInto := Some r\<rparr>)" by simp
      with nr r show ?thesis by blast
    qed
  qed
qed

lemma compress_step:
  assumes c: "m c = Some cl" and nr: "mergedInto cl \<noteq> None" and r: "rootOf m c r"
  shows "compressed m (m(c \<mapsto> cl\<lparr>mergedInto := Some r\<rparr>))"
proof -
  let ?m' = "m(c \<mapsto> cl\<lparr>mergedInto := Some r\<rparr>)"
  have rr: "isRoot m r" using r by (rule rootOf_isRoot)
  have cr: "c \<noteq> r" using rr c nr by (auto simp: isRoot_def)
  have fwd: "rootOf m x y \<Longrightarrow> rootOf ?m' x y" for x y
  proof (induction rule: rootOf.induct)
    case (rootHere x xl)
    then have "x \<noteq> c" using c nr by auto
    with rootHere show ?case by (auto intro: rootOf.rootHere)
  next
    case (rootStep x xl p y)
    show ?case
    proof (cases "x = c")
      case True
      with rootStep.hyps c have "rootOf m c y" by (auto intro: rootOf.rootStep)
      with r have "y = r" by (auto dest: rootOf_unique)
      have "rootOf ?m' r r" using rr cr
        by (auto simp: isRoot_def split: option.splits intro: rootOf.rootHere)
      then have "rootOf ?m' c r"
        by (rule rootOf.rootStep[where cl = "cl\<lparr>mergedInto := Some r\<rparr>", rotated 2]) simp_all
      then show ?thesis using True \<open>y = r\<close> by blast
    next
      case False
      with rootStep show ?thesis by (auto intro: rootOf.rootStep)
    qed
  qed
  have bwd: "rootOf ?m' x y \<Longrightarrow> rootOf m x y" for x y
  proof (induction rule: rootOf.induct)
    case (rootHere x xl)
    then have "x \<noteq> c" by (auto split: if_splits)
    with rootHere show ?case by (auto intro: rootOf.rootHere)
  next
    case (rootStep x xl p y)
    show ?case
    proof (cases "x = c")
      case True
      with rootStep.hyps have "p = r" by auto
      with rootStep.IH rr have "y = r" by (simp add: rootOf_root)
      with True r show ?thesis by simp
    next
      case False
      with rootStep show ?thesis by (auto intro: rootOf.rootStep)
    qed
  qed
  have "dom ?m' = dom m" using c by auto
  moreover have "rootOf ?m' x y = rootOf m x y" for x y using fwd bwd by blast
  moreover have "?m' x = Some xl
      \<or> (mergedInto xl \<noteq> None \<and> (\<exists>r. rootOf m x r \<and> ?m' x = Some (xl\<lparr>mergedInto := Some r\<rparr>)))"
    if "m x = Some xl" for x xl
  proof (cases "x = c")
    case True
    with that c have "xl = cl" by simp
    with True nr r show ?thesis by auto
  next
    case False
    with that show ?thesis by simp
  qed
  ultimately show ?thesis unfolding compressed_def by blast
qed

lemma getRoot_compressed_aux:
  "getRoot m c = Some y \<Longrightarrow> compressed m (snd y) \<and> rootOf m c (fst y)"
proof (induction m c y rule: getRoot_induct)
  case (step getRoot m c y)
  show ?case
  proof (cases "m c")
    case None
    with step(2) show ?thesis by simp
  next
    case (Some cl)
    note mc = this
    show ?thesis
    proof (cases "mergedInto cl")
      case None
      with mc step(2) show ?thesis by (auto simp: compressed_refl intro: rootOf.rootHere)
    next
      case (Some p)
      with mc step(2) obtain r m1 cl' where
        rec: "getRoot m p = Some (r, m1)" and c1: "m1 c = Some cl'"
        and y: "y = (r, m1(c \<mapsto> cl'\<lparr>mergedInto := Some r\<rparr>))"
        by (auto split: option.splits bind_splits)
      from step(1)[OF rec] have ih: "compressed m m1" "rootOf m p r" by auto
      have rc: "rootOf m c r" using mc Some ih(2) by (rule rootOf.rootStep)
      then have rc1: "rootOf m1 c r" using ih(1) by (simp add: compressed_rootOf)
      have "\<not> isRoot m c" using mc Some by (simp add: isRoot_def)
      then have "\<not> isRoot m1 c" using ih(1) by (simp add: compressed_isRoot)
      then have "mergedInto cl' \<noteq> None" using c1 by (simp add: isRoot_def)
      from compress_step[OF c1 this rc1] have "compressed m1 (m1(c \<mapsto> cl'\<lparr>mergedInto := Some r\<rparr>))" .
      with ih(1) have "compressed m (m1(c \<mapsto> cl'\<lparr>mergedInto := Some r\<rparr>))"
        by (rule compressed_trans)
      with rc show ?thesis unfolding y fst_conv snd_conv by blast
    qed
  qed
qed

lemma getRoot_compressed: "getRoot m c = Some (r, m') \<Longrightarrow> compressed m m'"
  and getRoot_rootOf: "getRoot m c = Some (r, m') \<Longrightarrow> rootOf m c r"
  using getRoot_compressed_aux[of m c "(r, m')"] by simp_all

lemma rootOf_getRoot: "rootOf m c r \<Longrightarrow> \<exists>m'. getRoot m c = Some (r, m')"
proof (induction rule: rootOf.induct)
  case (rootHere c cl)
  then show ?case by (subst getRoot.simps) simp
next
  case (rootStep c cl p r)
  then obtain m1 where g: "getRoot m p = Some (r, m1)" by blast
  then have "compressed m m1" by (rule getRoot_compressed)
  then have "dom m1 = dom m" by (rule compressed_dom)
  with rootStep.hyps(1) obtain cl' where "m1 c = Some cl'" by (metis domD domI)
  with rootStep.hyps g show ?case by (subst getRoot.simps) simp
qed


lemma computeMoveUpLoop_compressed:
  "computeMoveUpLoop ndebug target vec xs remain moveUp m = Some (remain', moveUp', m')
   \<Longrightarrow> compressed m m'"
proof (induction ndebug target vec xs remain moveUp m rule: computeMoveUpLoop.induct)
  case (1 ndebug target vec remain moveUp m)
  then show ?case by (simp add: compressed_refl)
next
  case (2 ndebug target vec op rest remain moveUp m)
  show ?case
  proof (cases "op \<in> set remain")
    case True
    with 2 show ?thesis by simp
  next
    case nin: False
    show ?thesis
    proof (cases "anyDefIn op target \<or> anyDefIn op remain")
      case False
      with nin 2 show ?thesis by simp
    next
      case dep: True
      show ?thesis
      proof (cases "m (opId op)")
        case None
        with nin dep 2 show ?thesis by simp
      next
        case (Some it)
        with nin dep "2.prems" obtain cluster m1 cl remain1 moveUp1 where
          g: "getRoot m (opId op) = Some (cluster, m1)" and c: "m1 cluster = Some cl"
          and p: "pullCluster ndebug vec (operations cl) remain moveUp = Some (remain1, moveUp1)"
          and r: "computeMoveUpLoop ndebug target vec rest remain1 moveUp1 m1 = Some (remain', moveUp', m')"
          by (auto split: option.splits)
        from "2.IH"(3)[OF nin dep Some g refl c p refl r]
        have "compressed m1 m'" .
        with getRoot_compressed[OF g] show ?thesis by (rule compressed_trans)
      qed
    qed
  qed
qed

lemma computeMoveDownLoop_compressed:
  "computeMoveDownLoop ndebug f target vec xs remain moveDown m = Some (remain', moveDown', m')
   \<Longrightarrow> compressed m m'"
proof (induction ndebug f target vec xs remain moveDown m rule: computeMoveDownLoop.induct)
  case (1 ndebug f target vec remain moveDown m)
  then show ?case by (simp add: compressed_refl)
next
  case (2 ndebug f target vec op rest remain moveDown m)
  show ?case
  proof (cases "op \<in> set remain")
    case True
    with 2 show ?thesis by simp
  next
    case nin: False
    show ?thesis
    proof (cases "anyUseIn f op target \<or> anyUseIn f op remain")
      case False
      with nin 2 show ?thesis by simp
    next
      case dep: True
      show ?thesis
      proof (cases "m (opId op)")
        case None
        with nin dep 2 show ?thesis by simp
      next
        case (Some it)
        with nin dep "2.prems" obtain cluster m1 cl remain1 moveDown1 where
          g: "getRoot m (opId op) = Some (cluster, m1)" and c: "m1 cluster = Some cl"
          and p: "pullCluster ndebug vec (rev (operations cl)) remain moveDown = Some (remain1, moveDown1)"
          and r: "computeMoveDownLoop ndebug f target vec rest remain1 moveDown1 m1
                    = Some (remain', moveDown', m')"
          by (auto split: option.splits)
        from "2.IH"(3)[OF nin dep Some g refl c p refl r]
        have "compressed m1 m'" .
        with getRoot_compressed[OF g] show ?thesis by (rule compressed_trans)
      qed
    qed
  qed
qed

lemma computeMoveUpSet_compressed:
  "computeMoveUpSet ndebug target src moveUp m = Some (remain', moveUp', m') \<Longrightarrow> compressed m m'"
  unfolding computeMoveUpSet_def by (rule computeMoveUpLoop_compressed)

lemma computeMoveDownSet_compressed:
  "computeMoveDownSet ndebug f target src moveDown m = Some (remain', moveDown', m') \<Longrightarrow> compressed m m'"
  unfolding computeMoveDownSet_def
  by (auto split: option.splits dest: computeMoveDownLoop_compressed)


text \<open>
  The two sets and the residual that a directed merge computes for the gap between an
  upper and a lower cluster. When \<open>from\<close> is the upper cluster the move-up set is computed
  first, on the whole gap, and the move-down set on what is left; when \<open>from\<close> is the lower
  cluster it is the other way round.
\<close>

definition gapSplit ::
  "bool \<Rightarrow> bool \<Rightarrow> helper \<Rightarrow> ActiveDeviceCluster \<Rightarrow> ActiveDeviceCluster
   \<Rightarrow> (operation list \<times> operation list \<times> operation list \<times> OpClusterMap) option" where
  "gapSplit ndebug fromIsUpper h upper lower =
     (let toMove = opsBetween (funcBody (funcOp h)) (last (operations upper)) (hd (operations lower))
      in if fromIsUpper then
           (case computeMoveUpSet ndebug (operations upper) toMove [] (op2cluster h) of
              None \<Rightarrow> None
            | Some (toMove1, moveUp, m1) \<Rightarrow>
                (case computeMoveDownSet ndebug (funcOp h) (operations lower) toMove1 [] m1 of
                   None \<Rightarrow> None
                 | Some (toMove2, moveDown, m2) \<Rightarrow> Some (moveUp, moveDown, toMove2, m2)))
         else
           (case computeMoveDownSet ndebug (funcOp h) (operations lower) toMove [] (op2cluster h) of
              None \<Rightarrow> None
            | Some (toMove1, moveDown, m1) \<Rightarrow>
                (case computeMoveUpSet ndebug (operations upper) toMove1 [] m1 of
                   None \<Rightarrow> None
                 | Some (toMove2, moveUp, m2) \<Rightarrow> Some (moveUp, moveDown, toMove2, m2))))"

text \<open>The state after a successful merge of \<open>from\<close> into \<open>to\<close>.\<close>

definition mergedState ::
  "nat \<Rightarrow> nat \<Rightarrow> helper \<Rightarrow> ActiveDeviceCluster \<Rightarrow> ActiveDeviceCluster
   \<Rightarrow> operation list \<Rightarrow> operation list \<Rightarrow> OpClusterMap \<Rightarrow> ActiveDeviceCluster \<Rightarrow> helper" where
  "mergedState from to h upper lower moveUp moveDown m2 toC2 =
     setBlock
       (foldl (\<lambda>b op. moveAfter op (last (operations lower)) b)
          (foldl (\<lambda>b op. moveBefore op (hd (operations upper)) b) (funcBody (funcOp h)) moveUp)
          moveDown)
       (h\<lparr>op2cluster :=
            m2(to \<mapsto> toC2\<lparr>operations := svInsertAll (operations upper) (operations lower)\<rparr>,
               from \<mapsto> \<lparr>operations = [], mergedInto = Some to\<rparr>)\<rparr>)"

lemma tryMergeInto_shape:
  assumes "tryMergeInto ndebug from to h = Some (ok, h')"
  obtains fromC toC fromIsUpper upper lower moveUp moveDown residual m2 where
    "op2cluster h from = Some fromC" "op2cluster h to = Some toC"
    "isBeforeInBlock (funcBody (funcOp h)) upper lower = Some True"
    "fromIsUpper \<longrightarrow> upper = fromC \<and> lower = toC"
    "\<not> fromIsUpper \<longrightarrow> upper = toC \<and> lower = fromC"
    "gapSplit ndebug fromIsUpper h upper lower = Some (moveUp, moveDown, residual, m2)"
    "ok \<longleftrightarrow> residual = []"
    "residual \<noteq> [] \<longrightarrow> h' = h\<lparr>op2cluster := m2\<rparr>"
    "residual = [] \<longrightarrow> (\<exists>fromC2 toC2. m2 from = Some fromC2 \<and> m2 to = Some toC2
        \<and> h' = mergedState from to h upper lower moveUp moveDown m2 toC2)"
proof -
  from assms obtain fromC toC where c: "op2cluster h from = Some fromC" "op2cluster h to = Some toC"
    by (cases "op2cluster h from"; cases "op2cluster h to") (auto simp: tryMergeInto_def)
  from assms c obtain b where b: "isBeforeInBlock (funcBody (funcOp h)) fromC toC = Some b"
    by (cases "isBeforeInBlock (funcBody (funcOp h)) fromC toC") (auto simp: tryMergeInto_def)
  show ?thesis
  proof (cases b)
    case True
    with assms c b obtain moveUp moveDown residual m2 where
      g: "gapSplit ndebug True h fromC toC = Some (moveUp, moveDown, residual, m2)"
      by (auto simp: tryMergeInto_def gapSplit_def Let_def split: option.splits)
    from assms c b True g have ok: "ok \<longleftrightarrow> residual = []"
      by (auto simp: tryMergeInto_def gapSplit_def Let_def split: option.splits if_splits)
    from assms c b True g have f: "residual \<noteq> [] \<Longrightarrow> h' = h\<lparr>op2cluster := m2\<rparr>"
      by (auto simp: tryMergeInto_def gapSplit_def Let_def split: option.splits if_splits)
    from assms c b True g have s: "residual = [] \<Longrightarrow> \<exists>fromC2 toC2. m2 from = Some fromC2
        \<and> m2 to = Some toC2 \<and> h' = mergedState from to h fromC toC moveUp moveDown m2 toC2"
      by (auto simp: tryMergeInto_def gapSplit_def mergedState_def Let_def
               split: option.splits if_splits)
    from c b True g ok f s show ?thesis by (intro that[of fromC toC fromC toC True]) auto
  next
    case False
    with assms c b have b2: "isBeforeInBlock (funcBody (funcOp h)) toC fromC = Some True"
      by (auto simp: tryMergeInto_def split: option.splits bool.splits)
    with assms c b False obtain moveUp moveDown residual m2 where
      g: "gapSplit ndebug False h toC fromC = Some (moveUp, moveDown, residual, m2)"
      by (auto simp: tryMergeInto_def gapSplit_def Let_def split: option.splits)
    from assms c b b2 False g have ok: "ok \<longleftrightarrow> residual = []"
      by (auto simp: tryMergeInto_def gapSplit_def Let_def split: option.splits if_splits)
    from assms c b b2 False g have f: "residual \<noteq> [] \<Longrightarrow> h' = h\<lparr>op2cluster := m2\<rparr>"
      by (auto simp: tryMergeInto_def gapSplit_def Let_def split: option.splits if_splits)
    from assms c b b2 False g have s: "residual = [] \<Longrightarrow> \<exists>fromC2 toC2. m2 from = Some fromC2
        \<and> m2 to = Some toC2 \<and> h' = mergedState from to h toC fromC moveUp moveDown m2 toC2"
      by (auto simp: tryMergeInto_def gapSplit_def mergedState_def Let_def
               split: option.splits if_splits)
    from c b2 False g ok f s show ?thesis by (intro that[of fromC toC toC fromC False]) auto
  qed
qed

lemma gapSplit_compressed:
  "gapSplit ndebug fromIsUpper h upper lower = Some (moveUp, moveDown, residual, m2)
   \<Longrightarrow> compressed (op2cluster h) m2"
  by (auto simp: gapSplit_def Let_def split: if_splits option.splits
           dest!: computeMoveUpSet_compressed computeMoveDownSet_compressed
           intro: compressed_trans)


lemma tryMergeInto_failure_compressed:
  assumes "tryMergeInto ndebug from to h = Some (False, h')"
  shows "funcOp h' = funcOp h \<and> candidates h' = candidates h
         \<and> compressed (op2cluster h) (op2cluster h')"
proof -
  from assms obtain fromIsUpper upper lower moveUp moveDown residual m2 where
    g: "gapSplit ndebug fromIsUpper h upper lower = Some (moveUp, moveDown, residual, m2)"
    and ok: "False \<longleftrightarrow> residual = []"
    and f: "residual \<noteq> [] \<longrightarrow> h' = h\<lparr>op2cluster := m2\<rparr>"
    by (rule tryMergeInto_shape)
  from ok f have "h' = h\<lparr>op2cluster := m2\<rparr>" by simp
  with gapSplit_compressed[OF g] show ?thesis by simp
qed

lemma tryMerge_failure_compressed:
  assumes "tryMerge ndebug lhs rhs h = Some (None, h')"
  shows "funcOp h' = funcOp h \<and> candidates h' = candidates h
         \<and> compressed (op2cluster h) (op2cluster h')"
proof (cases "\<exists>l r. lhs = Some l \<and> rhs = Some r \<and> l \<noteq> r \<and> isRoot (op2cluster h) l \<and> isRoot (op2cluster h) r")
  case False
  with assms have "h' = h"
    by (auto simp: tryMerge_def isRoot_def split: option.splits if_splits)
  then show ?thesis by (simp add: compressed_refl)
next
  case True
  then obtain l r where lr: "lhs = Some l" "rhs = Some r" "l \<noteq> r"
    "isRoot (op2cluster h) l" "isRoot (op2cluster h) r" by blast
  with assms obtain h1 where a: "tryMergeInto ndebug l r h = Some (False, h1)"
    and b: "tryMergeInto ndebug r l h1 = Some (False, h')"
    by (auto simp: tryMerge_def isRoot_def split: option.splits if_splits bool.splits)
  from tryMergeInto_failure_compressed[OF a] tryMergeInto_failure_compressed[OF b]
  show ?thesis by (auto intro: compressed_trans)
qed

text \<open>
  The block \<open>[p, h(p), a(h), b(a), c(b), q(p, c)]\<close> with \<open>h\<close> marked host. The top-down
  strategy merges \<open>a\<close> into \<open>b\<close> and \<open>b\<close> into \<open>c\<close> before it reaches \<open>q\<close>; \<open>chainHelper\<close> is its
  state at that point.
\<close>

definition chainP :: operation where "chainP = Operation 1 [] [] 1 []"
definition chainH :: operation where
  "chainH = Operation 2 [OpResult 1 0] [(''device'', ''host'')] 1 []"
definition chainA :: operation where "chainA = Operation 3 [OpResult 2 0] [] 1 []"
definition chainB :: operation where "chainB = Operation 4 [OpResult 3 0] [] 1 []"
definition chainC :: operation where "chainC = Operation 5 [OpResult 4 0] [] 1 []"
definition chainQ :: operation where "chainQ = Operation 6 [OpResult 1 0, OpResult 5 0] [] 1 []"
definition chainRet :: operation where "chainRet = Operation 7 [OpResult 6 0] [] 0 []"

definition chainFunc :: func where
  "chainFunc = mkFunc [chainP, chainH, chainA, chainB, chainC, chainQ] chainRet"

definition chainHelper :: "bool \<Rightarrow> helper option" where
  "chainHelper ndebug = topDownLoop ndebug [chainP, chainH, chainA, chainB, chainC]
                   (DeviceClusteringAlgoBaseHelper exExt chainFunc ''device'')"



text \<open>
  C6, as the code has it. A directed merge that fails, and a \<open>tryMerge\<close> that returns the
  null pointer, reposition no operation, leave the operation list of every cluster as it
  was, leave every root record untouched and make no root a non-root; every cluster keeps
  its root. The cluster map can still change: \<open>getRoot\<close>, called for a rejected operation
  of the gap, redirects links that were already set to the root of their cluster.
\<close>

theorem failed_merge_frame:
  "(tryMergeInto ndebug from to h = Some (False, h') \<longrightarrow>
      funcOp h' = funcOp h \<and> candidates h' = candidates h
      \<and> (\<forall>c. clusterOps (op2cluster h') c = clusterOps (op2cluster h) c)
      \<and> (\<forall>c. isRoot (op2cluster h') c = isRoot (op2cluster h) c)
      \<and> (\<forall>c. isRoot (op2cluster h) c \<longrightarrow> op2cluster h' c = op2cluster h c)
      \<and> compressed (op2cluster h) (op2cluster h'))
   \<and> (tryMerge ndebug lhs rhs h = Some (None, h'') \<longrightarrow>
      funcOp h'' = funcOp h \<and> candidates h'' = candidates h
      \<and> (\<forall>c. clusterOps (op2cluster h'') c = clusterOps (op2cluster h) c)
      \<and> (\<forall>c. isRoot (op2cluster h'') c = isRoot (op2cluster h) c)
      \<and> (\<forall>c. isRoot (op2cluster h) c \<longrightarrow> op2cluster h'' c = op2cluster h c)
      \<and> compressed (op2cluster h) (op2cluster h''))"
proof -
  have frame: "(\<forall>c. clusterOps m' c = clusterOps m c) \<and> (\<forall>c. isRoot m' c = isRoot m c)
               \<and> (\<forall>c. isRoot m c \<longrightarrow> m' c = m c)" if "compressed m m'" for m m'
    using that by (simp add: compressed_clusterOps compressed_isRoot compressed_root_eq)
  show ?thesis
    using tryMergeInto_failure_compressed[of ndebug "from" to h h']
          tryMerge_failure_compressed[of ndebug lhs rhs h h''] frame
    by blast
qed

text \<open>
  C6 as stated fails: in the state the top-down strategy reaches on \<open>chainFunc\<close> the
  merge of \<open>p\<close> and \<open>q\<close> fails, and it sets the link of the cluster of \<open>a\<close>, which pointed to
  the cluster of \<open>b\<close>, to the cluster of \<open>c\<close>.
\<close>

theorem failed_merge_counterexample:
  "\<exists>h h'. chainHelper False = Some h \<and> tryMergeInto False 1 6 h = Some (False, h')
          \<and> map_option mergedInto (op2cluster h 3) = Some (Some 4)
          \<and> map_option mergedInto (op2cluster h' 3) = Some (Some 5)
          \<and> op2cluster h' \<noteq> op2cluster h"
proof -
  have "case chainHelper False of
          None \<Rightarrow> False
        | Some h \<Rightarrow>
            (case tryMergeInto False 1 6 h of
               None \<Rightarrow> False
             | Some (ok, h') \<Rightarrow>
                 \<not> ok \<and> map_option mergedInto (op2cluster h 3) = Some (Some 4)
                 \<and> map_option mergedInto (op2cluster h' 3) = Some (Some 5))"
    by code_simp
  then obtain h h' where "chainHelper False = Some h" "tryMergeInto False 1 6 h = Some (False, h')"
    "map_option mergedInto (op2cluster h 3) = Some (Some 4)"
    "map_option mergedInto (op2cluster h' 3) = Some (Some 5)"
    by (auto split: option.splits)
  moreover from this have "op2cluster h' \<noteq> op2cluster h" by auto
  ultimately show ?thesis by blast
qed

theorem failed_merge_frame_witness:
  "\<exists>h h' h''. chainHelper False = Some h
     \<and> tryMergeInto False 1 6 h = Some (False, h') \<and> tryMerge False (Some 1) (Some 6) h = Some (None, h'')
     \<and> funcOp h' = funcOp h \<and> funcOp h'' = funcOp h
     \<and> clusterOps (op2cluster h') 5 = clusterOps (op2cluster h) 5
     \<and> clusterOps (op2cluster h'') 5 = clusterOps (op2cluster h) 5
     \<and> isRoot (op2cluster h') 1 \<and> isRoot (op2cluster h') 6
     \<and> isRoot (op2cluster h'') 1 \<and> isRoot (op2cluster h'') 6"
proof -
  have "case chainHelper False of
          None \<Rightarrow> False
        | Some h \<Rightarrow>
            isRoot (op2cluster h) 1 \<and> isRoot (op2cluster h) 6
            \<and> map_option fst (tryMergeInto False 1 6 h) = Some False
            \<and> map_option fst (tryMerge False (Some 1) (Some 6) h) = Some None"
    by code_simp
  then obtain h h' h'' where h: "chainHelper False = Some h"
    and r: "isRoot (op2cluster h) 1" "isRoot (op2cluster h) 6"
    and a: "tryMergeInto False 1 6 h = Some (False, h')"
    and b: "tryMerge False (Some 1) (Some 6) h = Some (None, h'')"
    by (auto split: option.splits)
  from failed_merge_frame[of False 1 6 h h' "Some 1" "Some 6" h''] a b r
  have "funcOp h' = funcOp h \<and> funcOp h'' = funcOp h
     \<and> clusterOps (op2cluster h') 5 = clusterOps (op2cluster h) 5
     \<and> clusterOps (op2cluster h'') 5 = clusterOps (op2cluster h) 5
     \<and> isRoot (op2cluster h') 1 \<and> isRoot (op2cluster h') 6
     \<and> isRoot (op2cluster h'') 1 \<and> isRoot (op2cluster h'') 6"
    by simp
  with h a b show ?thesis by blast
qed

section \<open>Sets of operations under the moves and the loops\<close>

lemma set_svInsert: "set (svInsert xs x) = insert x (set xs)"
  by (auto simp: svInsert_def)

lemma set_svInsertAll: "set (svInsertAll xs ys) = set xs \<union> set ys"
proof -
  have "set (foldl svInsert xs ys) = set xs \<union> set ys"
    by (induction ys arbitrary: xs) (auto simp: set_svInsert)
  then show ?thesis by (simp add: svInsertAll_def)
qed

lemma distinct_svInsert: "distinct xs \<Longrightarrow> distinct (svInsert xs x)"
  by (auto simp: svInsert_def)

lemma mset_insertBefore: "mset (insertBefore x y zs) = add_mset x (mset zs)"
  by (induction zs) auto

lemma mset_insertAfter: "mset (insertAfter x y zs) = add_mset x (mset zs)"
  by (induction zs) auto

lemma mset_moveBefore: "op \<in> set blk \<Longrightarrow> mset (moveBefore op e blk) = mset blk"
  by (simp add: moveBefore_def mset_insertBefore)

lemma mset_moveAfter: "op \<in> set blk \<Longrightarrow> mset (moveAfter op e blk) = mset blk"
  by (simp add: moveAfter_def mset_insertAfter)

lemma mset_foldl_moveBefore:
  "set xs \<subseteq> set blk \<Longrightarrow> mset (foldl (\<lambda>b op. moveBefore op e b) blk xs) = mset blk"
proof (induction xs arbitrary: blk)
  case Nil
  then show ?case by simp
next
  case (Cons x xs)
  then have m: "mset (moveBefore x e blk) = mset blk" by (simp add: mset_moveBefore)
  then have "set (moveBefore x e blk) = set blk" by (rule mset_eq_setD)
  with Cons.prems have "set xs \<subseteq> set (moveBefore x e blk)" by simp
  from Cons.IH[OF this] m show ?case by simp
qed

lemma mset_foldl_moveAfter:
  "set xs \<subseteq> set blk \<Longrightarrow> mset (foldl (\<lambda>b op. moveAfter op e b) blk xs) = mset blk"
proof (induction xs arbitrary: blk)
  case Nil
  then show ?case by simp
next
  case (Cons x xs)
  then have m: "mset (moveAfter x e blk) = mset blk" by (simp add: mset_moveAfter)
  then have "set (moveAfter x e blk) = set blk" by (rule mset_eq_setD)
  with Cons.prems have "set xs \<subseteq> set (moveAfter x e blk)" by simp
  from Cons.IH[OF this] m show ?case by simp
qed

lemma set_opsBetween: "set (opsBetween blk a b) \<subseteq> set blk"
proof
  fix x
  assume "x \<in> set (opsBetween blk a b)"
  then have "x \<in> set (tl (dropWhile (\<lambda>x. x \<noteq> a) blk))"
    unfolding opsBetween_def by (auto dest: set_takeWhileD)
  then have "x \<in> set (dropWhile (\<lambda>x. x \<noteq> a) blk)"
    by (cases "dropWhile (\<lambda>x. x \<noteq> a) blk") auto
  then show "x \<in> set blk" by (rule set_dropWhileD)
qed

lemma distinct_opsBetween: "distinct blk \<Longrightarrow> distinct (opsBetween blk a b)"
  by (simp add: opsBetween_def distinct_tl)

lemma pullCluster_sets:
  "pullCluster ndebug vec xs remain move = Some (remain', move') \<Longrightarrow>
     set move' \<subseteq> set move
     \<and> (if ndebug then remain' = remain
        else set xs \<subseteq> set vec \<and> set remain' = set remain \<union> set xs
             \<and> set xs \<inter> set remain = {})"
proof (induction xs arbitrary: remain move)
  case Nil
  then show ?case by simp
next
  case (Cons x xs)
  let ?mv = "if x \<in> set move then svRemove move x else move"
  have mv: "set ?mv \<subseteq> set move"
    using set_remove1_subset[of x move] by (simp add: svRemove_def)
  show ?case
  proof (cases ndebug)
    case True
    with Cons.prems have "pullCluster ndebug vec xs remain ?mv = Some (remain', move')" by simp
    from Cons.IH[OF this] True mv show ?thesis by auto
  next
    case False
    with Cons.prems have x: "x \<in> set vec" "x \<notin> set remain"
      by (auto split: if_splits)
    with Cons.prems False have
      "pullCluster ndebug vec xs (remain @ [x]) ?mv = Some (remain', move')" by simp
    from Cons.IH[OF this] x False mv show ?thesis by auto
  qed
qed

lemma pullCluster_subset:
  "pullCluster ndebug vec xs remain move = Some (remain', move') \<Longrightarrow>
     set remain' \<subseteq> set remain \<union> set vec \<and> set move' \<subseteq> set move"
  by (drule pullCluster_sets) (auto split: if_splits)

lemma pullCluster_sets_assert:
  "pullCluster ndebug vec xs remain move = Some (remain', move') \<Longrightarrow> \<not> ndebug \<Longrightarrow>
     set xs \<subseteq> set vec \<and> set remain' = set remain \<union> set xs \<and> set move' \<subseteq> set move
     \<and> set xs \<inter> set remain = {}"
  by (drule pullCluster_sets) simp

lemma computeMoveUpLoop_subset:
  "computeMoveUpLoop ndebug target vec xs remain moveUp m = Some (remain', moveUp', m')
   \<Longrightarrow> set xs \<subseteq> set vec
   \<Longrightarrow> set remain' \<union> set moveUp' \<subseteq> set remain \<union> set moveUp \<union> set vec"
proof (induction ndebug target vec xs remain moveUp m rule: computeMoveUpLoop.induct)
  case (1 ndebug target vec remain moveUp m)
  then show ?case by auto
next
  case (2 ndebug target vec op rest remain moveUp m)
  from "2.prems"(2) have sub: "op \<in> set vec" "set rest \<subseteq> set vec" by auto
  show ?case
  proof (cases "op \<in> set remain")
    case True
    with 2 sub show ?thesis by simp
  next
    case nin: False
    show ?thesis
    proof (cases "anyDefIn op target \<or> anyDefIn op remain")
      case False
      with nin "2.prems"(1) have
        "computeMoveUpLoop ndebug target vec rest remain (svInsert moveUp op) m = Some (remain', moveUp', m')"
        by simp
      from "2.IH"(4)[OF nin False this sub(2)] sub show ?thesis
        by (auto simp: set_svInsert)
    next
      case dep: True
      show ?thesis
      proof (cases "m (opId op)")
        case None
        with nin dep "2.prems"(1) have
          "computeMoveUpLoop ndebug target vec rest (svInsert remain op) moveUp m = Some (remain', moveUp', m')"
          by simp
        from "2.IH"(2)[OF nin dep None this sub(2)] sub show ?thesis
          by (auto simp: set_svInsert)
      next
        case (Some it)
        with nin dep "2.prems"(1) obtain cluster m1 cl remain1 moveUp1 where
          g: "getRoot m (opId op) = Some (cluster, m1)" and c: "m1 cluster = Some cl"
          and p: "pullCluster ndebug vec (operations cl) remain moveUp = Some (remain1, moveUp1)"
          and r: "computeMoveUpLoop ndebug target vec rest remain1 moveUp1 m1 = Some (remain', moveUp', m')"
          by (auto split: option.splits)
        from "2.IH"(3)[OF nin dep Some g refl c p refl r sub(2)] pullCluster_subset[OF p]
        show ?thesis by auto
      qed
    qed
  qed
qed

lemma computeMoveDownLoop_subset:
  "computeMoveDownLoop ndebug f target vec xs remain moveDown m = Some (remain', moveDown', m')
   \<Longrightarrow> set xs \<subseteq> set vec
   \<Longrightarrow> set remain' \<union> set moveDown' \<subseteq> set remain \<union> set moveDown \<union> set vec"
proof (induction ndebug f target vec xs remain moveDown m rule: computeMoveDownLoop.induct)
  case (1 ndebug f target vec remain moveDown m)
  then show ?case by auto
next
  case (2 ndebug f target vec op rest remain moveDown m)
  from "2.prems"(2) have sub: "op \<in> set vec" "set rest \<subseteq> set vec" by auto
  show ?case
  proof (cases "op \<in> set remain")
    case True
    with 2 sub show ?thesis by simp
  next
    case nin: False
    show ?thesis
    proof (cases "anyUseIn f op target \<or> anyUseIn f op remain")
      case False
      with nin "2.prems"(1) have
        "computeMoveDownLoop ndebug f target vec rest remain (svInsert moveDown op) m
           = Some (remain', moveDown', m')"
        by simp
      from "2.IH"(4)[OF nin False this sub(2)] sub show ?thesis
        by (auto simp: set_svInsert)
    next
      case dep: True
      show ?thesis
      proof (cases "m (opId op)")
        case None
        with nin dep "2.prems"(1) have
          "computeMoveDownLoop ndebug f target vec rest (svInsert remain op) moveDown m
             = Some (remain', moveDown', m')"
          by simp
        from "2.IH"(2)[OF nin dep None this sub(2)] sub show ?thesis
          by (auto simp: set_svInsert)
      next
        case (Some it)
        with nin dep "2.prems"(1) obtain cluster m1 cl remain1 moveDown1 where
          g: "getRoot m (opId op) = Some (cluster, m1)" and c: "m1 cluster = Some cl"
          and p: "pullCluster ndebug vec (rev (operations cl)) remain moveDown = Some (remain1, moveDown1)"
          and r: "computeMoveDownLoop ndebug f target vec rest remain1 moveDown1 m1
                    = Some (remain', moveDown', m')"
          by (auto split: option.splits)
        from "2.IH"(3)[OF nin dep Some g refl c p refl r sub(2)] pullCluster_subset[OF p]
        show ?thesis by auto
      qed
    qed
  qed
qed

lemma computeMoveUpSet_subset:
  "computeMoveUpSet ndebug target src [] m = Some (remain', moveUp', m')
   \<Longrightarrow> set remain' \<union> set moveUp' \<subseteq> set src"
  unfolding computeMoveUpSet_def using computeMoveUpLoop_subset[of ndebug target src src "[]" "[]" m]
  by auto

lemma computeMoveDownSet_subset:
  "computeMoveDownSet ndebug f target src [] m = Some (remain', moveDown', m')
   \<Longrightarrow> set remain' \<union> set moveDown' \<subseteq> set src"
  unfolding computeMoveDownSet_def
  using computeMoveDownLoop_subset[of ndebug f target src "rev src" "[]" "[]" m]
  by (auto split: option.splits)

lemma gapSplit_subset:
  assumes "gapSplit ndebug fromIsUpper h upper lower = Some (moveUp, moveDown, residual, m2)"
  shows "set moveUp \<union> set moveDown \<union> set residual
           \<subseteq> set (opsBetween (funcBody (funcOp h)) (last (operations upper)) (hd (operations lower)))"
proof (cases fromIsUpper)
  case True
  with assms obtain r1 m1 where
    u: "computeMoveUpSet ndebug (operations upper)
          (opsBetween (funcBody (funcOp h)) (last (operations upper)) (hd (operations lower)))
          [] (op2cluster h) = Some (r1, moveUp, m1)"
    and d: "computeMoveDownSet ndebug (funcOp h) (operations lower) r1 [] m1 = Some (residual, moveDown, m2)"
    by (auto simp: gapSplit_def Let_def split: option.splits)
  from computeMoveUpSet_subset[OF u] computeMoveDownSet_subset[OF d] show ?thesis by auto
next
  case False
  with assms obtain r1 m1 where
    d: "computeMoveDownSet ndebug (funcOp h) (operations lower)
          (opsBetween (funcBody (funcOp h)) (last (operations upper)) (hd (operations lower)))
          [] (op2cluster h) = Some (r1, moveDown, m1)"
    and u: "computeMoveUpSet ndebug (operations upper) r1 [] m1 = Some (residual, moveUp, m2)"
    by (auto simp: gapSplit_def Let_def split: option.splits)
  from computeMoveUpSet_subset[OF u] computeMoveDownSet_subset[OF d] show ?thesis by auto
qed

section \<open>Reachable states of a clusterer\<close>

text \<open>
  The states of a clusterer on a function: the one its constructor builds, and every
  state a \<open>tryMerge\<close>, a \<open>getCluster\<close> or a new candidate list leads to from one of them.
\<close>

inductive mergeReachable :: "bool \<Rightarrow> externs \<Rightarrow> func \<Rightarrow> string \<Rightarrow> helper \<Rightarrow> bool"
  for ndebug ext f a where
  reachInit: "mergeReachable ndebug ext f a (DeviceClusteringAlgoBaseHelper ext f a)"
| reachMerge: "mergeReachable ndebug ext f a h \<Longrightarrow> tryMerge ndebug lhs rhs h = Some (res, h')
                \<Longrightarrow> mergeReachable ndebug ext f a h'"
| reachFind: "mergeReachable ndebug ext f a h \<Longrightarrow> getCluster i h = Some (res, h')
                \<Longrightarrow> mergeReachable ndebug ext f a h'"
| reachCandidates: "mergeReachable ndebug ext f a h \<Longrightarrow> mergeReachable ndebug ext f a (h\<lparr>candidates := cs\<rparr>)"

lemma getClusterOfValue_reachable:
  "mergeReachable ndebug ext f a h \<Longrightarrow> getClusterOfValue v h = Some (res, h')
   \<Longrightarrow> mergeReachable ndebug ext f a h'"
  by (cases v) (auto intro: reachFind)

lemma mergeOperands_reachable:
  "mergeReachable ndebug ext f a h \<Longrightarrow> mergeOperands ndebug vs cur h = Some (res, h')
   \<Longrightarrow> mergeReachable ndebug ext f a h'"
proof (induction vs arbitrary: cur h)
  case Nil
  then show ?case by simp
next
  case (Cons v vs)
  from Cons.prems(2) obtain pre h1 mg h2 where
    g: "getClusterOfValue v h = Some (pre, h1)" and t: "tryMerge ndebug pre cur h1 = Some (mg, h2)"
    and r: "mergeOperands ndebug vs (case mg of None \<Rightarrow> cur | Some x \<Rightarrow> Some x) h2 = Some (res, h')"
    by (auto split: option.splits)
  from Cons.prems(1) g have "mergeReachable ndebug ext f a h1" by (rule getClusterOfValue_reachable)
  then have "mergeReachable ndebug ext f a h2" using t by (rule reachMerge)
  then show ?case using r by (rule Cons.IH)
qed

lemma mergeUses_reachable:
  "mergeReachable ndebug ext f a h \<Longrightarrow> mergeUses ndebug us cur h = Some (res, h')
   \<Longrightarrow> mergeReachable ndebug ext f a h'"
proof (induction us arbitrary: cur h)
  case Nil
  then show ?case by simp
next
  case (Cons u us)
  from Cons.prems(2) obtain pre h1 mg h2 where
    g: "getCluster (opId u) h = Some (pre, h1)" and t: "tryMerge ndebug pre cur h1 = Some (mg, h2)"
    and r: "mergeUses ndebug us (case mg of None \<Rightarrow> cur | Some x \<Rightarrow> Some x) h2 = Some (res, h')"
    by (auto split: option.splits)
  from Cons.prems(1) g have "mergeReachable ndebug ext f a h1" by (rule reachFind)
  then have "mergeReachable ndebug ext f a h2" using t by (rule reachMerge)
  then show ?case using r by (rule Cons.IH)
qed

lemma topDownLoop_reachable:
  "mergeReachable ndebug ext f a h \<Longrightarrow> topDownLoop ndebug xs h = Some h' \<Longrightarrow> mergeReachable ndebug ext f a h'"
proof (induction xs arbitrary: h)
  case Nil
  then show ?case by simp
next
  case (Cons x xs)
  from Cons.prems(2) obtain cur h1 c h2 where
    g: "getCluster (opId x) h = Some (cur, h1)"
    and m: "mergeOperands ndebug (opOperands x) cur h1 = Some (c, h2)"
    and r: "topDownLoop ndebug xs h2 = Some h'"
    by (auto split: option.splits)
  from Cons.prems(1) g have "mergeReachable ndebug ext f a h1" by (rule reachFind)
  then have "mergeReachable ndebug ext f a h2" using m by (rule mergeOperands_reachable)
  then show ?case using r by (rule Cons.IH)
qed

lemma bottomUpLoop_reachable:
  "mergeReachable ndebug ext f a h \<Longrightarrow> bottomUpLoop ndebug xs h = Some h' \<Longrightarrow> mergeReachable ndebug ext f a h'"
proof (induction xs arbitrary: h)
  case Nil
  then show ?case by simp
next
  case (Cons x xs)
  from Cons.prems(2) obtain cur h1 c h2 where
    g: "getCluster (opId x) h = Some (cur, h1)"
    and m: "mergeUses ndebug (getUses (funcOp h1) x) cur h1 = Some (c, h2)"
    and r: "bottomUpLoop ndebug xs h2 = Some h'"
    by (auto split: option.splits)
  from Cons.prems(1) g have "mergeReachable ndebug ext f a h1" by (rule reachFind)
  then have "mergeReachable ndebug ext f a h2" using m by (rule mergeUses_reachable)
  then show ?case using r by (rule Cons.IH)
qed

lemma coalesce_reachable:
  "mergeReachable ndebug ext f a h \<Longrightarrow> coalesce ndebug c wl h = Some (c', kept, h')
   \<Longrightarrow> mergeReachable ndebug ext f a h'"
proof (induction wl arbitrary: c h c' kept)
  case Nil
  then show ?case by simp
next
  case (Cons it rest)
  from Cons.prems(2) obtain mg h1 where t: "tryMerge ndebug (Some it) (Some c) h = Some (mg, h1)"
    by (auto split: option.splits)
  from Cons.prems(1) t have r1: "mergeReachable ndebug ext f a h1" by (rule reachMerge)
  show ?case
  proof (cases mg)
    case None
    with Cons.prems(2) t obtain kept' where "coalesce ndebug c rest h1 = Some (c', kept', h')"
      by (auto split: option.splits)
    with r1 show ?thesis by (rule Cons.IH)
  next
    case (Some x)
    with Cons.prems(2) t have "coalesce ndebug x rest h1 = Some (c', kept, h')" by simp
    with r1 show ?thesis by (rule Cons.IH)
  qed
qed

lemma workListLoop_reachable:
  "mergeReachable ndebug ext f a h \<Longrightarrow> workListLoop ndebug wl cands h = Some (cands', h')
   \<Longrightarrow> mergeReachable ndebug ext f a h'"
proof (induction ndebug wl cands h rule: workListLoop.induct)
  case (1 ndebug cands h)
  then show ?case by simp
next
  case (2 ndebug cluster workList cands h)
  from "2.prems"(2) obtain c kept h1 where
    c: "coalesce ndebug cluster workList h = Some (c, kept, h1)"
    and r: "workListLoop ndebug kept (cands @ [c]) h1 = Some (cands', h')"
    by (auto split: option.splits)
  from "2.prems"(1) c have "mergeReachable ndebug ext f a h1" by (rule coalesce_reachable)
  then show ?case using r by (rule "2.IH"[OF c refl refl])
qed

lemma populateCandidates_reachable:
  assumes "mergeReachable ndebug ext f a h" and "populateCandidates ndebug order h = Some h'"
  shows "mergeReachable ndebug ext f a h'"
proof -
  from assms(2) obtain wl cands h1 where
    w: "workListLoop ndebug wl [] h = Some (cands, h1)"
    and h': "h' = h1\<lparr>candidates := sortByNumOps (op2cluster h1) cands\<rparr>"
    unfolding populateCandidates_def Let_def by (auto split: option.splits)
  from assms(1) w have "mergeReachable ndebug ext f a h1" by (rule workListLoop_reachable)
  then show ?thesis unfolding h' by (rule reachCandidates)
qed

lemma TopDownDeviceClustering_reachable:
  assumes "TopDownDeviceClustering ndebug ext f a order = Some h"
  shows "mergeReachable ndebug ext f a h"
proof -
  from assms obtain h1 where
    t: "topDownLoop ndebug (funcBody (funcOp (DeviceClusteringAlgoBaseHelper ext f a)))
          (DeviceClusteringAlgoBaseHelper ext f a) = Some h1"
    and p: "populateCandidates ndebug order h1 = Some h"
    unfolding TopDownDeviceClustering_def topDownMerge_def by (auto split: option.splits)
  from reachInit t have "mergeReachable ndebug ext f a h1" by (rule topDownLoop_reachable)
  then show ?thesis using p by (rule populateCandidates_reachable)
qed

lemma BottomUpDeviceClustering_reachable:
  assumes "BottomUpDeviceClustering ndebug ext f a order = Some h"
  shows "mergeReachable ndebug ext f a h"
proof -
  from assms obtain h1 where
    t: "bottomUpLoop ndebug (rev (funcBody (funcOp (DeviceClusteringAlgoBaseHelper ext f a))))
          (DeviceClusteringAlgoBaseHelper ext f a) = Some h1"
    and p: "populateCandidates ndebug order h1 = Some h"
    unfolding BottomUpDeviceClustering_def bottomUpMerge_def by (auto split: option.splits)
  from reachInit t have "mergeReachable ndebug ext f a h1" by (rule bottomUpLoop_reachable)
  then show ?thesis using p by (rule populateCandidates_reachable)
qed

section \<open>The effect of a merge\<close>

text \<open>What a successful directed merge does to the state.\<close>

lemma tryMergeInto_success:
  assumes t: "tryMergeInto ndebug from to h = Some (True, h')"
  obtains m2 toC2 merged where
    "compressed (op2cluster h) m2" "m2 to = Some toC2"
    "op2cluster h' = m2(to \<mapsto> toC2\<lparr>operations := merged\<rparr>,
                        from \<mapsto> \<lparr>operations = [], mergedInto = Some to\<rparr>)"
    "set merged = set (clusterOps (op2cluster h) from) \<union> set (clusterOps (op2cluster h) to)"
    "mset (funcBody (funcOp h')) = mset (funcBody (funcOp h))"
    "funcOp h' = (funcOp h)\<lparr>funcBody := funcBody (funcOp h')\<rparr>"
    "candidates h' = candidates h"
proof -
  from t obtain fromC toC fromIsUpper upper lower moveUp moveDown residual m2 where
    c: "op2cluster h from = Some fromC" "op2cluster h to = Some toC"
    and ul: "fromIsUpper \<longrightarrow> upper = fromC \<and> lower = toC"
            "\<not> fromIsUpper \<longrightarrow> upper = toC \<and> lower = fromC"
    and g: "gapSplit ndebug fromIsUpper h upper lower = Some (moveUp, moveDown, residual, m2)"
    and ok: "True \<longleftrightarrow> residual = []"
    and s: "residual = [] \<longrightarrow> (\<exists>fromC2 toC2. m2 from = Some fromC2 \<and> m2 to = Some toC2
        \<and> h' = mergedState from to h upper lower moveUp moveDown m2 toC2)"
    by (rule tryMergeInto_shape)
  from ok s obtain toC2 where t2: "m2 to = Some toC2"
    and h': "h' = mergedState from to h upper lower moveUp moveDown m2 toC2" by auto
  let ?merged = "svInsertAll (operations upper) (operations lower)"
  have cm: "compressed (op2cluster h) m2" using g by (rule gapSplit_compressed)
  have m': "op2cluster h' = m2(to \<mapsto> toC2\<lparr>operations := ?merged\<rparr>,
                        from \<mapsto> \<lparr>operations = [], mergedInto = Some to\<rparr>)"
    by (simp add: h' mergedState_def setBlock_def)
  have "set ?merged = set (operations fromC) \<union> set (operations toC)"
    using ul by (cases fromIsUpper) (auto simp: set_svInsertAll)
  then have sm: "set ?merged = set (clusterOps (op2cluster h) from) \<union> set (clusterOps (op2cluster h) to)"
    using c by (simp add: clusterOps_def)
  from gapSplit_subset[OF g] set_opsBetween
  have sub: "set moveUp \<subseteq> set (funcBody (funcOp h))" "set moveDown \<subseteq> set (funcBody (funcOp h))"
    by blast+
  let ?b1 = "foldl (\<lambda>b op. moveBefore op (hd (operations upper)) b) (funcBody (funcOp h)) moveUp"
  have b1: "mset ?b1 = mset (funcBody (funcOp h))" using sub(1) by (rule mset_foldl_moveBefore)
  then have "set ?b1 = set (funcBody (funcOp h))" by (rule mset_eq_setD)
  with sub(2) have "set moveDown \<subseteq> set ?b1" by simp
  then have "mset (foldl (\<lambda>b op. moveAfter op (last (operations lower)) b) ?b1 moveDown) = mset ?b1"
    by (rule mset_foldl_moveAfter)
  with b1 have ms: "mset (funcBody (funcOp h')) = mset (funcBody (funcOp h))"
    by (simp add: h' mergedState_def setBlock_def)
  have fo: "funcOp h' = (funcOp h)\<lparr>funcBody := funcBody (funcOp h')\<rparr>"
    by (simp add: h' mergedState_def setBlock_def)
  have ca: "candidates h' = candidates h" by (simp add: h' mergedState_def setBlock_def)
  from cm t2 m' sm ms fo ca show ?thesis by (rule that)
qed

text \<open>
  The two outcomes of \<open>tryMerge\<close>: nothing but path compression, or the merge of one root
  into another.
\<close>

definition mergedMap ::
  "OpClusterMap \<Rightarrow> nat \<Rightarrow> nat \<Rightarrow> OpClusterMap \<Rightarrow> bool" where
  "mergedMap m from to m' =
     (from \<noteq> to \<and> isRoot m from \<and> isRoot m to
      \<and> (\<exists>m2 toC2 merged.
            compressed m m2 \<and> m2 to = Some toC2
            \<and> m' = m2(to \<mapsto> toC2\<lparr>operations := merged\<rparr>,
                       from \<mapsto> \<lparr>operations = [], mergedInto = Some to\<rparr>)
            \<and> set merged = set (clusterOps m from) \<union> set (clusterOps m to)))"

lemma tryMerge_effect:
  assumes t: "tryMerge ndebug lhs rhs h = Some (res, h')"
  shows "mset (funcBody (funcOp h')) = mset (funcBody (funcOp h))
         \<and> funcOp h' = (funcOp h)\<lparr>funcBody := funcBody (funcOp h')\<rparr>
         \<and> candidates h' = candidates h
         \<and> (case res of
               None \<Rightarrow> compressed (op2cluster h) (op2cluster h')
             | Some to \<Rightarrow> \<exists>from. {Some from, Some to} = {lhs, rhs}
                           \<and> mergedMap (op2cluster h) from to (op2cluster h'))"
proof (cases res)
  case None
  with t tryMerge_failure_compressed[of ndebug lhs rhs h h'] show ?thesis by simp
next
  case (Some s)
  with t tryMerge_success_roots[of ndebug lhs rhs h s h'] obtain l r where
    lr: "lhs = Some l" "rhs = Some r" "l \<noteq> r" "isRoot (op2cluster h) l" "isRoot (op2cluster h) r"
    by blast
  from t Some lr have alt:
    "(tryMergeInto ndebug l r h = Some (True, h') \<and> s = r)
     \<or> (\<exists>h1. tryMergeInto ndebug l r h = Some (False, h1) \<and> tryMergeInto ndebug r l h1 = Some (True, h')
              \<and> s = l)"
    by (auto simp: tryMerge_def isRoot_def split: option.splits if_splits bool.splits)
  then show ?thesis
  proof
    assume a: "tryMergeInto ndebug l r h = Some (True, h') \<and> s = r"
    then have a1: "tryMergeInto ndebug l r h = Some (True, h')" by simp
    obtain m2 toC2 merged where
      "compressed (op2cluster h) m2" "m2 r = Some toC2"
      "op2cluster h' = m2(r \<mapsto> toC2\<lparr>operations := merged\<rparr>,
                          l \<mapsto> \<lparr>operations = [], mergedInto = Some r\<rparr>)"
      "set merged = set (clusterOps (op2cluster h) l) \<union> set (clusterOps (op2cluster h) r)"
      and fr: "mset (funcBody (funcOp h')) = mset (funcBody (funcOp h))"
      "funcOp h' = (funcOp h)\<lparr>funcBody := funcBody (funcOp h')\<rparr>"
      "candidates h' = candidates h"
      by (rule tryMergeInto_success[OF a1])
    with lr have "mergedMap (op2cluster h) l r (op2cluster h')"
      unfolding mergedMap_def by blast
    with fr a Some lr show ?thesis by auto
  next
    assume "\<exists>h1. tryMergeInto ndebug l r h = Some (False, h1) \<and> tryMergeInto ndebug r l h1 = Some (True, h')
              \<and> s = l"
    then obtain h1 where f1: "tryMergeInto ndebug l r h = Some (False, h1)"
      and a1: "tryMergeInto ndebug r l h1 = Some (True, h')" and s: "s = l" by blast
    from tryMergeInto_failure_compressed[OF f1] have h1: "funcOp h1 = funcOp h"
      "candidates h1 = candidates h" "compressed (op2cluster h) (op2cluster h1)" by auto
    obtain m2 toC2 merged where
      c2: "compressed (op2cluster h1) m2" and t2: "m2 l = Some toC2"
      and m': "op2cluster h' = m2(l \<mapsto> toC2\<lparr>operations := merged\<rparr>,
                          r \<mapsto> \<lparr>operations = [], mergedInto = Some l\<rparr>)"
      and sm: "set merged = set (clusterOps (op2cluster h1) r) \<union> set (clusterOps (op2cluster h1) l)"
      and fr: "mset (funcBody (funcOp h')) = mset (funcBody (funcOp h1))"
      "funcOp h' = (funcOp h1)\<lparr>funcBody := funcBody (funcOp h')\<rparr>"
      "candidates h' = candidates h1"
      by (rule tryMergeInto_success[OF a1])
    from h1(3) c2 have c: "compressed (op2cluster h) m2" by (rule compressed_trans)
    from sm h1(3) have sm': "set merged = set (clusterOps (op2cluster h) r) \<union> set (clusterOps (op2cluster h) l)"
      by (simp add: compressed_clusterOps)
    from lr c t2 m' sm' have "mergedMap (op2cluster h) r l (op2cluster h')"
      unfolding mergedMap_def by blast
    with fr h1 s Some lr show ?thesis by auto
  qed
qed

lemma getCluster_effect:
  assumes "getCluster i h = Some (res, h')"
  shows "funcOp h' = funcOp h \<and> candidates h' = candidates h
         \<and> compressed (op2cluster h) (op2cluster h')
         \<and> (case res of None \<Rightarrow> op2cluster h i = None
                        | Some r \<Rightarrow> rootOf (op2cluster h) i r)"
  using assms
  by (auto simp: getCluster_def compressed_refl split: option.splits
           dest: getRoot_compressed getRoot_rootOf)

section \<open>Operations that enter a cluster\<close>

definition trackedOps :: "externs \<Rightarrow> func \<Rightarrow> string \<Rightarrow> operation list" where
  "trackedOps ext f a = filter (\<lambda>op. \<not> skippedByHelper ext f a op) (funcBody f)"

lemma clusterOps_try_emplace:
  "set (clusterOps (try_emplace m op) c) \<subseteq> set (clusterOps m c) \<union> {op}"
  by (auto simp: try_emplace_def clusterOps_def split: option.splits if_splits)

lemma init_clusterOps_aux:
  "(\<And>c. set (clusterOps m c) \<subseteq> S) \<Longrightarrow>
   set (clusterOps (foldl (\<lambda>m op. if P op then m else try_emplace m op) m xs) c)
     \<subseteq> S \<union> {op \<in> set xs. \<not> P op}"
proof (induction xs arbitrary: m S)
  case Nil
  then show ?case by simp
next
  case (Cons x xs)
  show ?case
  proof (cases "P x")
    case True
    with Cons.IH[of m S] Cons.prems show ?thesis by auto
  next
    case False
    have "\<And>c. set (clusterOps (try_emplace m x) c) \<subseteq> S \<union> {x}"
      using clusterOps_try_emplace[of m x] Cons.prems by blast
    from Cons.IH[of "try_emplace m x" "S \<union> {x}", OF this] False show ?thesis by auto
  qed
qed

lemma init_clusterOps:
  "set (clusterOps (op2cluster (DeviceClusteringAlgoBaseHelper ext f a)) c)
     \<subseteq> set (trackedOps ext f a)"
  using init_clusterOps_aux[of Map.empty "{}" "skippedByHelper ext f a" "funcBody f" c]
  by (auto simp: DeviceClusteringAlgoBaseHelper_def trackedOps_def clusterOps_def)

lemma mergedMap_clusterOps:
  assumes "mergedMap m from to m'"
  shows "set (clusterOps m' c) \<subseteq> set (clusterOps m c) \<union> set (clusterOps m from)"
proof -
  from assms obtain m2 toC2 merged where
    c: "compressed m m2" and m': "m' = m2(to \<mapsto> toC2\<lparr>operations := merged\<rparr>,
                       from \<mapsto> \<lparr>operations = [], mergedInto = Some to\<rparr>)"
    and s: "set merged = set (clusterOps m from) \<union> set (clusterOps m to)"
    unfolding mergedMap_def by blast
  have "clusterOps m' c = (if c = from then [] else if c = to then merged else clusterOps m2 c)"
    unfolding m' by (simp add: clusterOps_def)
  with s compressed_clusterOps[OF c, of c] show ?thesis by auto
qed

lemma reachable_clusterOps:
  "mergeReachable ndebug ext f a h \<Longrightarrow> set (clusterOps (op2cluster h) c) \<subseteq> set (trackedOps ext f a)"
proof (induction arbitrary: c rule: mergeReachable.induct)
  case reachInit
  show ?case by (rule init_clusterOps)
next
  case (reachMerge h lhs rhs res h')
  show ?case
  proof (cases res)
    case None
    with tryMerge_effect[OF reachMerge.hyps(2)]
    have "compressed (op2cluster h) (op2cluster h')" by simp
    with reachMerge.IH[of c] show ?thesis by (simp add: compressed_clusterOps)
  next
    case (Some to)
    with tryMerge_effect[OF reachMerge.hyps(2)] obtain from' where
      "mergedMap (op2cluster h) from' to (op2cluster h')" by auto
    from mergedMap_clusterOps[OF this, of c] reachMerge.IH show ?thesis by blast
  qed
next
  case (reachFind h i res h')
  from getCluster_effect[OF reachFind.hyps(2)]
  have "compressed (op2cluster h) (op2cluster h')" by simp
  with reachFind.IH[of c] show ?case by (simp add: compressed_clusterOps)
next
  case (reachCandidates h cs)
  then show ?case by simp
qed

lemma metadataLoop_ops:
  "md \<in> set (metadataLoop ext opts h cs) \<Longrightarrow> \<exists>c \<in> set cs. ops md = clusterOps (op2cluster h) c"
  by (induction cs) (auto split: if_splits)

lemma getFunctionMetadatas_ops:
  "getFunctionMetadatas ext opts h = Some ms \<Longrightarrow> md \<in> set ms
   \<Longrightarrow> \<exists>c. ops md = clusterOps (op2cluster h) c"
  unfolding getFunctionMetadatas_def
  by (auto split: list.splits if_splits dest!: metadataLoop_ops simp del: metadataLoop.simps)

lemma runTopDown_tracked:
  assumes "runTopDown ndebug ext opts order f = Some (Some ms, f')" and "md \<in> set ms"
  shows "set (ops md) \<subseteq> set (trackedOps ext f (attrName opts))"
proof -
  from assms(1) obtain h where h: "TopDownDeviceClustering ndebug ext f (attrName opts) order = Some h"
    and g: "getFunctionMetadatas ext opts h = Some ms"
    unfolding runTopDown_def by (auto split: option.splits)
  from getFunctionMetadatas_ops[OF g assms(2)] obtain c where
    "ops md = clusterOps (op2cluster h) c" by blast
  with reachable_clusterOps[OF TopDownDeviceClustering_reachable[OF h], of c] show ?thesis
    by simp
qed

lemma runBottomUp_tracked:
  assumes "runBottomUp ndebug ext opts order f = Some (Some ms, f')" and "md \<in> set ms"
  shows "set (ops md) \<subseteq> set (trackedOps ext f (attrName opts))"
proof -
  from assms(1) obtain h where h: "BottomUpDeviceClustering ndebug ext f (attrName opts) order = Some h"
    and g: "getFunctionMetadatas ext opts h = Some ms"
    unfolding runBottomUp_def by (auto split: option.splits)
  from getFunctionMetadatas_ops[OF g assms(2)] obtain c where
    "ops md = clusterOps (op2cluster h) c" by blast
  with reachable_clusterOps[OF BottomUpDeviceClustering_reachable[OF h], of c] show ?thesis
    by simp
qed

lemma runGreedy_tracked:
  assumes "runGreedy ndebug ext opts orders f = Some (Some ms, f')" and "md \<in> set ms"
  shows "set (ops md) \<subseteq> set (trackedOps ext f (attrName opts))"
proof -
  from assms(1) have "runTopDown ndebug ext opts (orderOriginal orders) f = Some (Some ms, f')
                      \<or> runBottomUp ndebug ext opts (orderOriginal orders) f = Some (Some ms, f')"
    unfolding runGreedy_def Let_def by (auto split: option.splits if_splits)
  with assms(2) show ?thesis by (auto dest: runTopDown_tracked runBottomUp_tracked)
qed

lemma trackedOps_not_host:
  "op \<in> set (trackedOps ext f a) \<Longrightarrow>
     op \<in> set (funcBody f) \<and> \<not> isHostOp a op \<and> \<not> skippedByHelper ext f a op"
  by (auto simp: trackedOps_def skippedByHelper_def)

section \<open>The host set of the fallback strategy\<close>

text \<open>
  The host set as the specification describes it: the operations of the block that are
  host themselves, closed under the defining operations of operands.
\<close>

inductive_set hostClosure :: "func \<Rightarrow> string \<Rightarrow> operation set" for f a where
  hostSeed: "op \<in> set (funcBody f) \<Longrightarrow> isHostOp a op \<Longrightarrow> op \<in> hostClosure f a"
| hostOperand: "op \<in> hostClosure f a \<Longrightarrow> v \<in> set (opOperands op)
                \<Longrightarrow> getDefiningOp (funcBody f) v = Some d \<Longrightarrow> d \<in> hostClosure f a"

definition definingOps :: "operation list \<Rightarrow> operation \<Rightarrow> operation set" where
  "definingOps body op = {d. \<exists>v \<in> set (opOperands op). getDefiningOp body v = Some d}"

lemma set_map_filter_defs:
  "set (List.map_filter (getDefiningOp body) (opOperands op)) = definingOps body op"
  by (force simp: List.map_filter_def definingOps_def image_iff)

lemma insertOpsRecursively_closed:
  "(\<And>x. x \<in> set opSet \<Longrightarrow> definingOps body x \<subseteq> set opSet \<union> set stack) \<Longrightarrow>
   set opSet \<union> set stack \<subseteq> set (insertOpsRecursively body stack opSet)
   \<and> (\<forall>x \<in> set (insertOpsRecursively body stack opSet).
         definingOps body x \<subseteq> set (insertOpsRecursively body stack opSet))"
proof (induction body stack opSet rule: insertOpsRecursively.induct)
  case (1 body opSet)
  then show ?case by auto
next
  case (2 body op stack opSet)
  show ?case
  proof (cases "op \<in> set opSet")
    case True
    have "\<And>x. x \<in> set opSet \<Longrightarrow> definingOps body x \<subseteq> set opSet \<union> set stack"
      using "2.prems" True by fastforce
    from "2.IH"(1)[OF True this] True show ?thesis by auto
  next
    case False
    let ?stack = "List.map_filter (getDefiningOp body) (opOperands op) @ stack"
    have "\<And>x. x \<in> set (opSet @ [op]) \<Longrightarrow> definingOps body x \<subseteq> set (opSet @ [op]) \<union> set ?stack"
      using "2.prems" by (fastforce simp: set_map_filter_defs)
    from "2.IH"(2)[OF False this] False show ?thesis by auto
  qed
qed

lemma insertOpsRecursively_least:
  "set opSet \<union> set stack \<subseteq> C \<Longrightarrow> (\<And>x. x \<in> C \<Longrightarrow> definingOps body x \<subseteq> C)
   \<Longrightarrow> set (insertOpsRecursively body stack opSet) \<subseteq> C"
proof (induction body stack opSet rule: insertOpsRecursively.induct)
  case (1 body opSet)
  then show ?case by simp
next
  case (2 body op stack opSet)
  show ?case
  proof (cases "op \<in> set opSet")
    case True
    with "2.IH"(1)[OF True _ "2.prems"(2)] "2.prems"(1) show ?thesis by simp
  next
    case False
    have "definingOps body op \<subseteq> C" using "2.prems" by simp
    with "2.prems"(1) have
      "set (opSet @ [op]) \<union> set (List.map_filter (getDefiningOp body) (opOperands op) @ stack) \<subseteq> C"
      by (auto simp: set_map_filter_defs)
    from "2.IH"(2)[OF False this "2.prems"(2)] False show ?thesis by simp
  qed
qed

lemma hostClosure_closed: "x \<in> hostClosure f a \<Longrightarrow> definingOps (funcBody f) x \<subseteq> hostClosure f a"
  by (auto simp: definingOps_def intro: hostOperand)

lemma hostOps_aux:
  assumes "set xs \<subseteq> set (funcBody f)"
      and "\<And>x. x \<in> set s \<Longrightarrow> definingOps (funcBody f) x \<subseteq> set s"
      and "set s \<subseteq> hostClosure f a"
  shows "let r = foldl (\<lambda>s op. if isHostOp a op then insertOpsRecursively (funcBody f) [op] s else s) s xs
         in set s \<union> {op \<in> set xs. isHostOp a op} \<subseteq> set r
            \<and> (\<forall>x \<in> set r. definingOps (funcBody f) x \<subseteq> set r)
            \<and> set r \<subseteq> hostClosure f a"
  using assms
proof (induction xs arbitrary: s)
  case Nil
  then show ?case by (auto simp: Let_def)
next
  case (Cons x xs)
  show ?case
  proof (cases "isHostOp a x")
    case False
    with Cons.IH[of s] Cons.prems show ?thesis by (auto simp: Let_def)
  next
    case True
    let ?s = "insertOpsRecursively (funcBody f) [x] s"
    have c: "set s \<union> set [x] \<subseteq> set ?s \<and> (\<forall>y \<in> set ?s. definingOps (funcBody f) y \<subseteq> set ?s)"
      by (rule insertOpsRecursively_closed) (use Cons.prems(2) in auto)
    have "x \<in> hostClosure f a" using Cons.prems(1) True by (auto intro: hostSeed)
    with Cons.prems(3) have "set s \<union> set [x] \<subseteq> hostClosure f a" by simp
    then have l: "set ?s \<subseteq> hostClosure f a"
      by (rule insertOpsRecursively_least) (rule hostClosure_closed)
    have "set xs \<subseteq> set (funcBody f)" using Cons.prems(1) by simp
    from Cons.IH[OF this _ l, of ] c True show ?thesis
      by (auto simp: Let_def)
  qed
qed

lemma set_hostOps: "set (hostOps f a) = hostClosure f a"
proof
  from hostOps_aux[of "funcBody f" f "[]" a]
  have r: "{op \<in> set (funcBody f). isHostOp a op} \<subseteq> set (hostOps f a)"
    "\<forall>x \<in> set (hostOps f a). definingOps (funcBody f) x \<subseteq> set (hostOps f a)"
    "set (hostOps f a) \<subseteq> hostClosure f a"
    by (simp_all add: hostOps_def Let_def)
  show "set (hostOps f a) \<subseteq> hostClosure f a" by fact
  show "hostClosure f a \<subseteq> set (hostOps f a)"
  proof
    fix x assume "x \<in> hostClosure f a"
    then show "x \<in> set (hostOps f a)"
    proof (induction rule: hostClosure.induct)
      case (hostSeed op)
      with r(1) show ?case by auto
    next
      case (hostOperand op v d)
      with r(2) show ?case by (auto simp: definingOps_def)
    qed
  qed
qed

lemma hostClosure_in_body: "x \<in> hostClosure f a \<Longrightarrow> x \<in> set (funcBody f)"
  by (induction rule: hostClosure.induct) (auto dest: getDefiningOp_in_body)

section \<open>The entries of the fallback strategy and the host operations\<close>

lemma filter_hostOps_set: "set (filter (\<lambda>op. op \<in> set (hostOps f a)) (funcBody f)) = hostClosure f a"
  using hostClosure_in_body[of _ f a] by (auto simp: set_hostOps)

text \<open>
  C8. The fallback strategy moves and merges nothing. The operations of its host entry
  are exactly the host set, in block order, and the entry is emitted exactly when the set
  is not empty, whatever the validation predicate says about it; the device entry holds
  all other operations of the block and is emitted only when there is one; the result is
  absent exactly when there is such an operation and the predicate rejects the device
  entry. The host set is the closure of the host operations under the defining
  operations of operands.
\<close>

theorem fallback_entries:
  "set (hostOps f (attrName opts)) = hostClosure f (attrName opts)
   \<and> set (filter (\<lambda>op. op \<in> set (hostOps f (attrName opts))) (funcBody f))
       = hostClosure f (attrName opts)
   \<and> computeMetadatas ndebug ext opts kFallback orders f
       = Some (getFunctionMetadatasFallback ext f opts, f)
   \<and> (getFunctionMetadatasFallback ext f opts = None \<longleftrightarrow>
        filter (\<lambda>op. op \<notin> set (hostOps f (attrName opts))) (funcBody f) \<noteq> []
        \<and> rejects (validateSubGraphFn opts)
             (filter (\<lambda>op. op \<notin> set (hostOps f (attrName opts))) (funcBody f)))
   \<and> (\<forall>ms. getFunctionMetadatasFallback ext f opts = Some ms \<longrightarrow>
        map (\<lambda>md. (deviceAttr md, anchorName md, ops md)) ms =
          (if hostOps f (attrName opts) \<noteq> []
           then [(DEVICE_ATTR_HOST, getHostAnchorName ext,
                  filter (\<lambda>op. op \<in> set (hostOps f (attrName opts))) (funcBody f))]
           else [])
          @ (if filter (\<lambda>op. op \<notin> set (hostOps f (attrName opts))) (funcBody f) \<noteq> []
             then [(device opts, deviceAnchorName opts,
                    filter (\<lambda>op. op \<notin> set (hostOps f (attrName opts))) (funcBody f))]
             else []))"
proof (intro conjI allI impI)
  show "set (hostOps f (attrName opts)) = hostClosure f (attrName opts)" by (rule set_hostOps)
  show "set (filter (\<lambda>op. op \<in> set (hostOps f (attrName opts))) (funcBody f))
       = hostClosure f (attrName opts)" by (rule filter_hostOps_set)
  show "computeMetadatas ndebug ext opts kFallback orders f
       = Some (getFunctionMetadatasFallback ext f opts, f)"
    by (simp add: computeMetadatas_def)
  show "getFunctionMetadatasFallback ext f opts = None \<longleftrightarrow>
        filter (\<lambda>op. op \<notin> set (hostOps f (attrName opts))) (funcBody f) \<noteq> []
        \<and> rejects (validateSubGraphFn opts)
             (filter (\<lambda>op. op \<notin> set (hostOps f (attrName opts))) (funcBody f))"
    by (simp add: getFunctionMetadatasFallback_def Let_def)
next
  fix ms
  assume "getFunctionMetadatasFallback ext f opts = Some ms"
  then show "map (\<lambda>md. (deviceAttr md, anchorName md, ops md)) ms =
          (if hostOps f (attrName opts) \<noteq> []
           then [(DEVICE_ATTR_HOST, getHostAnchorName ext,
                  filter (\<lambda>op. op \<in> set (hostOps f (attrName opts))) (funcBody f))]
           else [])
          @ (if filter (\<lambda>op. op \<notin> set (hostOps f (attrName opts))) (funcBody f) \<noteq> []
             then [(device opts, deviceAnchorName opts,
                    filter (\<lambda>op. op \<notin> set (hostOps f (attrName opts))) (funcBody f))]
             else [])"
    by (auto simp: getFunctionMetadatasFallback_def Let_def split: if_splits)
qed

definition rejectHostPair :: options where
  "rejectHostPair = exOpts\<lparr>validateSubGraphFn := Some (\<lambda>xs. xs \<noteq> [splitA, splitH])\<rparr>"


theorem fallback_entries_witness:
  "hostClosure splitFunc ''device'' = {splitA, splitH}
   \<and> map_option (map (\<lambda>md. (deviceAttr md, anchorName md, ops md)))
        (getFunctionMetadatasFallback exExt splitFunc rejectHostPair)
       = Some [(''host'', ''host_anchor'', [splitA, splitH]), (''cuda'', ''cuda_anchor'', [splitC, splitD])]
   \<and> getFunctionMetadatasFallback exExt splitFunc rejectPairs = None
   \<and> computeMetadatas False exExt rejectPairs kFallback splitOrders splitFunc = Some (None, splitFunc)"
proof -
  have a: "attrName rejectHostPair = ''device''" "attrName rejectPairs = ''device''"
    by (simp_all add: rejectHostPair_def rejectPairs_def exOpts_def)
  have h: "hostOps splitFunc ''device'' = [splitH, splitA]" by code_simp
  note t1 = fallback_entries[of splitFunc rejectHostPair False exExt splitOrders, unfolded a h]
  note t2 = fallback_entries[of splitFunc rejectPairs False exExt splitOrders, unfolded a h]
  have c: "hostClosure splitFunc ''device'' = {splitA, splitH}"
    using t1[THEN conjunct1] by auto
  have d: "filter (\<lambda>op. op \<notin> set [splitH, splitA]) (funcBody splitFunc) = [splitC, splitD]"
    "filter (\<lambda>op. op \<in> set [splitH, splitA]) (funcBody splitFunc) = [splitA, splitH]"
    by code_simp+
  have r: "rejects (validateSubGraphFn rejectPairs) [splitC, splitD]"
    "\<not> rejects (validateSubGraphFn rejectHostPair) [splitC, splitD]"
    by code_simp+
  note u1 = t1[THEN conjunct2, THEN conjunct2, THEN conjunct2, unfolded d]
  note u2 = t2[THEN conjunct2, THEN conjunct2, unfolded d]
  from u2[THEN conjunct2, THEN conjunct1] r(1)
  have n: "getFunctionMetadatasFallback exExt splitFunc rejectPairs = None" by simp
  from u1[THEN conjunct1] r(2)
  obtain ms where ms: "getFunctionMetadatasFallback exExt splitFunc rejectHostPair = Some ms"
    by auto
  from u1[THEN conjunct2] ms
  have "map (\<lambda>md. (deviceAttr md, anchorName md, ops md)) ms
      = [(DEVICE_ATTR_HOST, getHostAnchorName exExt, [splitA, splitH]),
         (device rejectHostPair, deviceAnchorName rejectHostPair, [splitC, splitD])]"
    by simp
  then have e: "map (\<lambda>md. (deviceAttr md, anchorName md, ops md)) ms
      = [(''host'', ''host_anchor'', [splitA, splitH]), (''cuda'', ''cuda_anchor'', [splitC, splitD])]"
    by (simp add: DEVICE_ATTR_HOST_def exExt_def rejectHostPair_def exOpts_def)
  from u2[THEN conjunct1] n
  have k: "computeMetadatas False exExt rejectPairs kFallback splitOrders splitFunc
             = Some (None, splitFunc)" by simp
  from c ms e n k show ?thesis by simp
qed


lemma computeMetadatas_tracked:
  assumes "algo \<noteq> kFallback"
      and "computeMetadatas ndebug ext opts algo orders f = Some (Some ms, f')"
      and "md \<in> set ms"
  shows "set (ops md) \<subseteq> set (trackedOps ext f (attrName opts))"
  using assms unfolding computeMetadatas_def
  by (cases algo) (auto dest: runTopDown_tracked runBottomUp_tracked runGreedy_tracked)

lemma fallback_entry_ops:
  assumes "getFunctionMetadatasFallback ext f opts = Some ms" and "md \<in> set ms"
  shows "(set (ops md) \<subseteq> hostClosure f (attrName opts) \<and> deviceAttr md = DEVICE_ATTR_HOST)
         \<or> set (ops md) \<inter> hostClosure f (attrName opts) = {}"
  using assms
  by (auto simp: getFunctionMetadatasFallback_def Let_def set_hostOps split: if_splits)

text \<open>
  C1, as the code has it. An operation that is host itself (by its attribute or by an
  operation nested in it), and a constant whose only use belongs to such an operation,
  never enters a cluster, in any state of a clusterer, and never appears in an entry that
  the top-down, bottom-up or greedy strategy emits. The closure of the host operations
  under operand chains is computed by the fallback strategy only: each of its entries
  either lies within the closure and is tagged host or has no operation of it.
\<close>

theorem host_ops_not_clustered:
  "(mergeReachable ndebug ext f a h \<longrightarrow>
      (\<forall>c. \<forall>op \<in> set (clusterOps (op2cluster h) c).
         op \<in> set (funcBody f) \<and> \<not> isHostOp a op \<and> \<not> skippedByHelper ext f a op))
   \<and> (algo \<noteq> kFallback \<and> computeMetadatas ndebug ext opts algo orders f = Some (Some ms, f') \<longrightarrow>
      (\<forall>md \<in> set ms. \<forall>op \<in> set (ops md).
         op \<in> set (funcBody f) \<and> \<not> isHostOp (attrName opts) op
         \<and> \<not> skippedByHelper ext f (attrName opts) op))
   \<and> (computeMetadatas ndebug ext opts kFallback orders f = Some (Some ms', f'') \<longrightarrow>
      (\<forall>md \<in> set ms'.
         (set (ops md) \<subseteq> hostClosure f (attrName opts) \<and> deviceAttr md = DEVICE_ATTR_HOST)
         \<or> set (ops md) \<inter> hostClosure f (attrName opts) = {}))"
proof -
  have p1: "op \<in> set (funcBody f) \<and> \<not> isHostOp a op \<and> \<not> skippedByHelper ext f a op"
    if "mergeReachable ndebug ext f a h" and "op \<in> set (clusterOps (op2cluster h) c)" for c op
  proof -
    from that reachable_clusterOps[of ndebug ext f a h c] have "op \<in> set (trackedOps ext f a)" by blast
    then show ?thesis by (rule trackedOps_not_host)
  qed
  have p2: "op \<in> set (funcBody f) \<and> \<not> isHostOp (attrName opts) op
         \<and> \<not> skippedByHelper ext f (attrName opts) op"
    if "algo \<noteq> kFallback" and "computeMetadatas ndebug ext opts algo orders f = Some (Some ms, f')"
      and "md \<in> set ms" and "op \<in> set (ops md)" for md op
  proof -
    from that computeMetadatas_tracked[of algo ndebug ext opts orders f ms f' md]
    have "op \<in> set (trackedOps ext f (attrName opts))" by blast
    then show ?thesis by (rule trackedOps_not_host)
  qed
  have p3: "(set (ops md) \<subseteq> hostClosure f (attrName opts) \<and> deviceAttr md = DEVICE_ATTR_HOST)
         \<or> set (ops md) \<inter> hostClosure f (attrName opts) = {}"
    if "computeMetadatas ndebug ext opts kFallback orders f = Some (Some ms', f'')" and "md \<in> set ms'"
    for md
  proof -
    from that(1) have "getFunctionMetadatasFallback ext f opts = Some ms'"
      by (auto simp: computeMetadatas_def)
    then show ?thesis using that(2) by (rule fallback_entry_ops)
  qed
  from p1 p2 p3 show ?thesis by blast
qed

definition multiOpts :: options where
  "multiOpts = exOpts\<lparr>enableMultiGraph := True\<rparr>"

text \<open>
  C1 as stated fails: in \<open>splitFunc\<close> the operation \<open>a\<close> defines the operand of the host
  operation, so it is in the host set, and the top-down and bottom-up strategies put it in
  a cluster and emit it in a device entry.
\<close>

theorem host_closure_is_clustered_counterexample:
  "splitA \<in> set (hostOps splitFunc (attrName multiOpts))
   \<and> \<not> isHostOp (attrName multiOpts) splitA
   \<and> map_option (\<lambda>(r, ms). (r, map (\<lambda>md. (deviceAttr md, ops md)) ms))
        (GraphClustingByDevice False exExt multiOpts kTopDown splitOrders splitFunc)
       = Some (success, [(''cuda'', [splitC, splitD]), (''cuda'', [splitA])])
   \<and> map_option (\<lambda>(r, ms). (r, map (\<lambda>md. (deviceAttr md, ops md)) ms))
        (GraphClustingByDevice False exExt multiOpts kBottomUp splitOrders splitFunc)
       = Some (success, [(''cuda'', [splitC, splitD]), (''cuda'', [splitA])])
   \<and> map_option (\<lambda>h. clusterOps (op2cluster h) 1)
        (TopDownDeviceClustering False exExt splitFunc (attrName multiOpts) (orderOriginal splitOrders))
       = Some [splitA]"
  by code_simp

theorem host_ops_not_clustered_witness:
  "\<exists>h ms f' ms' f''.
     TopDownDeviceClustering False exExt splitFunc ''device'' [1, 3, 4] = Some h
     \<and> mergeReachable False exExt splitFunc ''device'' h
     \<and> clusterOps (op2cluster h) 4 = [splitC, splitD]
     \<and> \<not> isHostOp ''device'' splitC \<and> \<not> isHostOp ''device'' splitD
     \<and> computeMetadatas False exExt multiOpts kGreedy splitOrders splitFunc = Some (Some ms, f')
     \<and> map ops ms = [[splitC, splitD], [splitA]]
     \<and> \<not> isHostOp (attrName multiOpts) splitA
     \<and> computeMetadatas False exExt multiOpts kFallback splitOrders splitFunc = Some (Some ms', f'')
     \<and> map ops ms' = [[splitA, splitH], [splitC, splitD]]
     \<and> {splitA, splitH} \<subseteq> hostClosure splitFunc (attrName multiOpts)
     \<and> {splitC, splitD} \<inter> hostClosure splitFunc (attrName multiOpts) = {}"
proof -
  have "map_option (\<lambda>h. clusterOps (op2cluster h) 4)
          (TopDownDeviceClustering False exExt splitFunc ''device'' [1, 3, 4]) = Some [splitC, splitD]"
    by code_simp
  then obtain h where h: "TopDownDeviceClustering False exExt splitFunc ''device'' [1, 3, 4] = Some h"
    and c: "clusterOps (op2cluster h) 4 = [splitC, splitD]" by auto
  from h have r: "mergeReachable False exExt splitFunc ''device'' h"
    by (rule TopDownDeviceClustering_reachable)
  have "map_option (map_option (map ops) \<circ> fst)
          (computeMetadatas False exExt multiOpts kGreedy splitOrders splitFunc)
        = Some (Some [[splitC, splitD], [splitA]])"
    by code_simp
  then obtain ms f' where g: "computeMetadatas False exExt multiOpts kGreedy splitOrders splitFunc
                                = Some (Some ms, f')"
    and m: "map ops ms = [[splitC, splitD], [splitA]]" by auto
  have "map_option (map_option (map (\<lambda>md. (ops md, deviceAttr md))) \<circ> fst)
          (computeMetadatas False exExt multiOpts kFallback splitOrders splitFunc)
        = Some (Some [([splitA, splitH], ''host''), ([splitC, splitD], ''cuda'')])"
    by code_simp
  then obtain ms' f'' where fb: "computeMetadatas False exExt multiOpts kFallback splitOrders splitFunc
                                = Some (Some ms', f'')"
    and m': "map (\<lambda>md. (ops md, deviceAttr md)) ms'
               = [([splitA, splitH], ''host''), ([splitC, splitD], ''cuda'')]" by auto
  from m' obtain e1 e2 where e: "ms' = [e1, e2]" "ops e1 = [splitA, splitH]"
    "ops e2 = [splitC, splitD]" "deviceAttr e2 = ''cuda''" by auto
  note t = host_ops_not_clustered[of False exExt splitFunc "''device''" h kGreedy multiOpts splitOrders
                                    ms f' ms' f'']
  note t1 = t[THEN conjunct1, rule_format, OF r]
  have g': "kGreedy \<noteq> kFallback \<and> computeMetadatas False exExt multiOpts kGreedy splitOrders splitFunc
              = Some (Some ms, f')" using g by simp
  note t2 = t[THEN conjunct2, THEN conjunct1, rule_format, OF g']
  note t3 = t[THEN conjunct2, THEN conjunct2, rule_format, OF fb]
  have n1: "\<not> isHostOp ''device'' splitC \<and> \<not> isHostOp ''device'' splitD"
    using t1[of splitC 4] t1[of splitD 4] c by simp
  from m obtain d1 d2 where d: "ms = [d1, d2]" "ops d1 = [splitC, splitD]" "ops d2 = [splitA]"
    by auto
  have n2: "\<not> isHostOp (attrName multiOpts) splitA"
    using t2[of d2 splitA] d by simp
  have ne: "''cuda'' \<noteq> DEVICE_ATTR_HOST" by (simp add: DEVICE_ATTR_HOST_def)
  have "splitA \<in> set (hostOps splitFunc (attrName multiOpts))" by code_simp
  then have inH: "splitA \<in> hostClosure splitFunc (attrName multiOpts)" by (simp add: set_hostOps)
  have s1: "{splitA, splitH} \<subseteq> hostClosure splitFunc (attrName multiOpts)"
    using t3[of e1] e inH by auto
  have s2: "{splitC, splitD} \<inter> hostClosure splitFunc (attrName multiOpts) = {}"
    using t3[of e2] e ne by auto
  have m'': "map ops ms' = [[splitA, splitH], [splitC, splitD]]" using e by simp
  show ?thesis
    apply (rule exI[where x = h])
    apply (rule exI[where x = ms])
    apply (rule exI[where x = f'])
    apply (rule exI[where x = ms'])
    apply (rule exI[where x = f''])
    apply (insert h r c n1 g m n2 fb m'' s1 s2)
    apply simp
    done
qed

section \<open>The union-find invariant\<close>

text \<open>
  The invariant of the cluster map of a clusterer that tracks the operations \<open>T\<close>: its
  keys are their identities; operation lists hold tracked operations only; every tracked
  operation has a root and is in the list of that root; and an operation in the list of
  a root has that root.
\<close>

definition clusterInv :: "operation set \<Rightarrow> OpClusterMap \<Rightarrow> bool" where
  "clusterInv T m =
     (dom m = opId ` T
      \<and> (\<forall>c. set (clusterOps m c) \<subseteq> T)
      \<and> (\<forall>op \<in> T. \<exists>r. rootOf m (opId op) r \<and> op \<in> set (clusterOps m r))
      \<and> (\<forall>r op. isRoot m r \<longrightarrow> op \<in> set (clusterOps m r) \<longrightarrow> rootOf m (opId op) r))"

lemma clusterInv_compressed:
  assumes "clusterInv T m" and "compressed m m'"
  shows "clusterInv T m'"
  using assms unfolding clusterInv_def
  by (simp add: compressed_dom compressed_clusterOps compressed_rootOf compressed_isRoot)

lemma merge_rootOf:
  assumes ne: "from \<noteq> to" and rf: "isRoot m2 from" and rt: "isRoot m2 to"
      and t2: "m2 to = Some toC2"
      and m': "m' = m2(to \<mapsto> toC2\<lparr>operations := merged\<rparr>,
                      from \<mapsto> \<lparr>operations = [], mergedInto = Some to\<rparr>)"
  shows "rootOf m' x y \<longleftrightarrow> (\<exists>r. rootOf m2 x r \<and> y = (if r = from then to else r))"
proof -
  have toRoot: "mergedInto toC2 = None" using rt t2 by (simp add: isRoot_def)
  have m'to: "m' to = Some (toC2\<lparr>operations := merged\<rparr>)" using ne m' by simp
  have m'from: "m' from = Some \<lparr>operations = [], mergedInto = Some to\<rparr>" using m' by simp
  have m'other: "m' c = m2 c" if "c \<noteq> from" "c \<noteq> to" for c using that m' by simp
  have r'to: "rootOf m' to to" using m'to toRoot by (auto intro: rootOf.rootHere)
  have r'from: "rootOf m' from to"
    by (rule rootOf.rootStep[OF m'from _ r'to]) simp
  have fwd: "\<exists>r. rootOf m2 x r \<and> y = (if r = from then to else r)" if "rootOf m' x y" for x y
    using that
  proof (induction rule: rootOf.induct)
    case (rootHere c cl)
    have "c \<noteq> from" using rootHere m'from by auto
    show ?case
    proof (cases "c = to")
      case True
      with rt ne show ?thesis by (auto simp: rootOf_root intro!: exI[of _ to])
    next
      case False
      with \<open>c \<noteq> from\<close> rootHere m'other[of c] have "rootOf m2 c c"
        by (auto intro: rootOf.rootHere)
      with \<open>c \<noteq> from\<close> show ?thesis by auto
    qed
  next
    case (rootStep c cl p r)
    have cto: "c \<noteq> to" using rootStep.hyps(1,2) m'to toRoot by auto
    show ?case
    proof (cases "c = from")
      case True
      have "p = to" using True rootStep.hyps(1,2) m'from by auto
      with rootStep.IH rt ne have "r = to" by (auto simp: rootOf_root)
      moreover have "rootOf m2 from from" using rf by (simp add: rootOf_root)
      ultimately show ?thesis using True by auto
    next
      case False
      with cto rootStep.hyps(1) m'other[of c] have c2: "m2 c = Some cl" by simp
      from rootStep.IH obtain r0 where "rootOf m2 p r0" "r = (if r0 = from then to else r0)"
        by blast
      with c2 rootStep.hyps(2) show ?thesis by (auto intro: rootOf.rootStep)
    qed
  qed
  have bwd: "rootOf m' x (if r = from then to else r)" if "rootOf m2 x r" for x r
    using that
  proof (induction rule: rootOf.induct)
    case (rootHere c cl)
    show ?case
    proof (cases "c = from")
      case True
      with r'from show ?thesis by simp
    next
      case nf: False
      show ?thesis
      proof (cases "c = to")
        case True
        with r'to ne show ?thesis by simp
      next
        case False
        with nf rootHere m'other[of c] show ?thesis by (auto intro: rootOf.rootHere)
      qed
    qed
  next
    case (rootStep c cl p r)
    have "\<not> isRoot m2 c" using rootStep.hyps(1,2) by (simp add: isRoot_def)
    with rf rt have "c \<noteq> from" "c \<noteq> to" by auto
    with rootStep.hyps(1) m'other[of c] have "m' c = Some cl" by simp
    then show ?case using rootStep.hyps(2) rootStep.IH by (rule rootOf.rootStep)
  qed
  from fwd bwd show ?thesis by blast
qed

lemma clusterInv_mergedMap:
  assumes inv: "clusterInv T m" and mm: "mergedMap m from to m'"
  shows "clusterInv T m'"
proof -
  from mm obtain m2 toC2 merged where
    ne: "from \<noteq> to" and rf: "isRoot m from" and rt: "isRoot m to"
    and c: "compressed m m2" and t2: "m2 to = Some toC2"
    and m': "m' = m2(to \<mapsto> toC2\<lparr>operations := merged\<rparr>,
                      from \<mapsto> \<lparr>operations = [], mergedInto = Some to\<rparr>)"
    and sm: "set merged = set (clusterOps m from) \<union> set (clusterOps m to)"
    unfolding mergedMap_def by blast
  have inv2: "clusterInv T m2" using inv c by (rule clusterInv_compressed)
  have rf2: "isRoot m2 from" and rt2: "isRoot m2 to"
    using rf rt c by (simp_all add: compressed_isRoot)
  note ro = merge_rootOf[OF ne rf2 rt2 t2 m']
  have ro1: "rootOf m' x to" if "rootOf m2 x from" for x
  proof -
    from that have "\<exists>r. rootOf m2 x r \<and> to = (if r = from then to else r)"
      by (intro exI[of _ "from"]) simp
    then show ?thesis by (simp add: ro)
  qed
  have ro2: "rootOf m' x r" if "rootOf m2 x r" "r \<noteq> from" for x r
  proof -
    from that have "\<exists>r'. rootOf m2 x r' \<and> r = (if r' = from then to else r')"
      by (intro exI[of _ r]) simp
    then show ?thesis by (simp add: ro)
  qed
  have ops': "clusterOps m' c = (if c = from then [] else if c = to then merged else clusterOps m2 c)"
    for c unfolding m' by (simp add: clusterOps_def)
  have ops2: "clusterOps m2 c = clusterOps m c" for c using c by (rule compressed_clusterOps)
  have toRoot: "mergedInto toC2 = None" using rt2 t2 by (simp add: isRoot_def)
  have root': "isRoot m' c \<longleftrightarrow> c \<noteq> from \<and> isRoot m2 c" for c
    unfolding m' using toRoot rt2 by (auto simp: isRoot_def)
  have fromdom: "from \<in> dom m2" "to \<in> dom m2" using rf2 rt2
    by (auto simp: isRoot_def split: option.splits)
  have d: "dom m' = opId ` T"
    using inv2 fromdom unfolding m' clusterInv_def by auto
  have s: "set (clusterOps m' c) \<subseteq> T" for c
    using inv2 sm unfolding ops' ops2[symmetric] clusterInv_def by auto
  have a: "\<exists>r. rootOf m' (opId op) r \<and> op \<in> set (clusterOps m' r)" if "op \<in> T" for op
  proof -
    from inv2 that obtain r where r: "rootOf m2 (opId op) r" "op \<in> set (clusterOps m2 r)"
      unfolding clusterInv_def by blast
    let ?r = "if r = from then to else r"
    have "rootOf m' (opId op) ?r" using ro1[of "opId op"] ro2[of "opId op" r] r(1) by auto
    moreover have "op \<in> set (clusterOps m' ?r)" using r(2) sm ne unfolding ops' ops2 by auto
    ultimately show ?thesis by blast
  qed
  have b: "rootOf m' (opId op) r" if "isRoot m' r" "op \<in> set (clusterOps m' r)" for r op
  proof -
    from that(1) have rn: "r \<noteq> from" "isRoot m2 r" by (simp_all add: root')
    show ?thesis
    proof (cases "r = to")
      case True
      with that(2) sm have "op \<in> set (clusterOps m2 from) \<or> op \<in> set (clusterOps m2 to)"
        unfolding ops' ops2 using ne by auto
      with inv2 rf2 rt2 have "rootOf m2 (opId op) from \<or> rootOf m2 (opId op) to"
        unfolding clusterInv_def by blast
      with ro1[of "opId op"] ro2[of "opId op" to] True ne show ?thesis by auto
    next
      case False
      with that(2) rn have "op \<in> set (clusterOps m2 r)" unfolding ops' by simp
      with inv2 rn have "rootOf m2 (opId op) r" unfolding clusterInv_def by blast
      with ro2 rn show ?thesis by auto
    qed
  qed
  from d s a b show ?thesis unfolding clusterInv_def by blast
qed

lemma init_map_other:
  "k \<notin> opId ` {op \<in> set xs. \<not> P op}
   \<Longrightarrow> foldl (\<lambda>m op. if P op then m else try_emplace m op) m xs k = m k"
proof (induction xs arbitrary: m)
  case Nil
  then show ?case by simp
next
  case (Cons x xs)
  from Cons.prems have k: "k \<notin> opId ` {op \<in> set xs. \<not> P op}" by auto
  show ?case
  proof (cases "P x")
    case True
    with Cons.IH[OF k, of m] show ?thesis by simp
  next
    case False
    with Cons.prems have "k \<noteq> opId x" by auto
    then have "try_emplace m x k = m k" by (simp add: try_emplace_def split: option.splits)
    with Cons.IH[OF k, of "try_emplace m x"] False show ?thesis by simp
  qed
qed

lemma init_map_tracked:
  "distinct (map opId xs) \<Longrightarrow> op \<in> set xs \<Longrightarrow> \<not> P op \<Longrightarrow> m (opId op) = None
   \<Longrightarrow> foldl (\<lambda>m op. if P op then m else try_emplace m op) m xs (opId op)
       = Some \<lparr>operations = [op], mergedInto = None\<rparr>"
proof (induction xs arbitrary: m)
  case Nil
  then show ?case by simp
next
  case (Cons x xs)
  show ?case
  proof (cases "x = op")
    case True
    with Cons.prems have "opId op \<notin> opId ` {y \<in> set xs. \<not> P y}" by auto
    from init_map_other[OF this] True Cons.prems show ?thesis
      by (simp add: try_emplace_def)
  next
    case False
    with Cons.prems have in_xs: "op \<in> set xs" and ne: "opId x \<noteq> opId op" by auto
    have "(if P x then m else try_emplace m x) (opId op) = None"
      using Cons.prems(4) ne by (auto simp: try_emplace_def split: option.splits)
    from Cons.IH[of "if P x then m else try_emplace m x", OF _ in_xs Cons.prems(3) this]
      Cons.prems(1) show ?thesis by simp
  qed
qed

lemma init_clusterInv:
  assumes "distinct (map opId (funcBody f))"
  shows "clusterInv (set (trackedOps ext f a)) (op2cluster (DeviceClusteringAlgoBaseHelper ext f a))"
proof -
  let ?P = "skippedByHelper ext f a"
  let ?m = "foldl (\<lambda>m op. if ?P op then m else try_emplace m op) Map.empty (funcBody f)"
  let ?T = "set (trackedOps ext f a)"
  have T: "?T = {op \<in> set (funcBody f). \<not> ?P op}" by (auto simp: trackedOps_def)
  have tr: "?m (opId op) = Some \<lparr>operations = [op], mergedInto = None\<rparr>" if "op \<in> ?T" for op
    using that init_map_tracked[OF assms, of op ?P Map.empty] by (simp add: T)
  have ot: "?m k = None" if "k \<notin> opId ` ?T" for k
    using that init_map_other[of k "funcBody f" ?P Map.empty] by (simp add: T)
  have inj: "op = op'" if "op \<in> ?T" "op' \<in> ?T" "opId op = opId op'" for op op'
    using that assms by (auto simp: T distinct_map dest: inj_onD)
  have d: "dom ?m = opId ` ?T"
  proof
    show "dom ?m \<subseteq> opId ` ?T"
    proof
      fix k assume "k \<in> dom ?m"
      then have "?m k \<noteq> None" by auto
      with ot[of k] show "k \<in> opId ` ?T" by blast
    qed
    show "opId ` ?T \<subseteq> dom ?m"
    proof
      fix k assume "k \<in> opId ` ?T"
      then obtain op where "op \<in> ?T" "k = opId op" by blast
      with tr[of op] show "k \<in> dom ?m" by auto
    qed
  qed
  have co: "clusterOps ?m (opId op) = [op]" if "op \<in> ?T" for op
    using tr[OF that] by (simp add: clusterOps_def)
  have s: "set (clusterOps ?m c) \<subseteq> ?T" for c
  proof (cases "c \<in> opId ` ?T")
    case True
    then obtain op where "op \<in> ?T" "c = opId op" by blast
    with co[of op] show ?thesis by simp
  next
    case False
    with ot[of c] show ?thesis by (simp add: clusterOps_def)
  qed
  have ro: "rootOf ?m (opId op) (opId op)" if "op \<in> ?T" for op
    using tr[OF that] by (auto intro: rootOf.rootHere)
  have a: "\<exists>r. rootOf ?m (opId op) r \<and> op \<in> set (clusterOps ?m r)" if "op \<in> ?T" for op
    using ro[OF that] co[OF that] by (intro exI[of _ "opId op"]) simp
  have b: "rootOf ?m (opId op) r" if "isRoot ?m r" "op \<in> set (clusterOps ?m r)" for r op
  proof (cases "r \<in> opId ` ?T")
    case True
    then obtain op' where o': "op' \<in> ?T" "r = opId op'" by blast
    with co[of op'] that(2) have "op = op'" by simp
    with o' ro[of op'] show ?thesis by simp
  next
    case False
    with ot[of r] that(2) show ?thesis by (simp add: clusterOps_def)
  qed
  have "op2cluster (DeviceClusteringAlgoBaseHelper ext f a) = ?m"
    by (simp add: DeviceClusteringAlgoBaseHelper_def)
  with d s a b show ?thesis unfolding clusterInv_def by simp
qed

lemma reachable_clusterInv:
  assumes "mergeReachable ndebug ext f a h" and "distinct (map opId (funcBody f))"
  shows "clusterInv (set (trackedOps ext f a)) (op2cluster h)"
  using assms(1)
proof (induction rule: mergeReachable.induct)
  case reachInit
  show ?case using assms(2) by (rule init_clusterInv)
next
  case (reachMerge h lhs rhs res h')
  show ?case
  proof (cases res)
    case None
    with tryMerge_effect[OF reachMerge.hyps(2)]
    have "compressed (op2cluster h) (op2cluster h')" by simp
    with reachMerge.IH show ?thesis by (rule clusterInv_compressed)
  next
    case (Some to)
    with tryMerge_effect[OF reachMerge.hyps(2)] obtain from' where
      "mergedMap (op2cluster h) from' to (op2cluster h')" by auto
    with reachMerge.IH show ?thesis by (rule clusterInv_mergedMap)
  qed
next
  case (reachFind h i res h')
  from getCluster_effect[OF reachFind.hyps(2)]
  have "compressed (op2cluster h) (op2cluster h')" by simp
  with reachFind.IH show ?case by (rule clusterInv_compressed)
next
  case (reachCandidates h cs)
  then show ?case by simp
qed

lemma reachable_block:
  assumes "mergeReachable ndebug ext f a h"
  shows "mset (funcBody (funcOp h)) = mset (funcBody f)
         \<and> funcOp h = f\<lparr>funcBody := funcBody (funcOp h)\<rparr>"
  using assms
proof (induction rule: mergeReachable.induct)
  case reachInit
  show ?case by (simp add: DeviceClusteringAlgoBaseHelper_def)
next
  case (reachMerge h lhs rhs res h')
  from tryMerge_effect[OF reachMerge.hyps(2)] have
    e: "mset (funcBody (funcOp h')) = mset (funcBody (funcOp h))"
    "funcOp h' = (funcOp h)\<lparr>funcBody := funcBody (funcOp h')\<rparr>" by simp_all
  from reachMerge.IH have i: "funcOp h = f\<lparr>funcBody := funcBody (funcOp h)\<rparr>" by simp
  have "funcOp h' = f\<lparr>funcBody := funcBody (funcOp h')\<rparr>"
    by (subst e(2), subst i) simp
  with e(1) reachMerge.IH show ?case by simp
next
  case (reachFind h i res h')
  from getCluster_effect[OF reachFind.hyps(2)] have "funcOp h' = funcOp h" by simp
  with reachFind.IH show ?case by simp
next
  case (reachCandidates h cs)
  then show ?case by simp
qed


text \<open>
  C9. In every state a clusterer reaches on a function whose operations have distinct
  identities, the tracked operations are the keys of the cluster map, and for each of
  them \<open>getRoot\<close> returns a root (a cluster whose \<open>mergedInto\<close> is not set) whose
  operation list contains the operation; no other root has it in its list.
\<close>

theorem union_find_invariant:
  assumes "mergeReachable ndebug ext f a h" and "distinct (map opId (funcBody f))"
  shows "dom (op2cluster h) = opId ` set (trackedOps ext f a)
         \<and> (\<forall>op \<in> set (trackedOps ext f a).
               \<exists>r m'. getRoot (op2cluster h) (opId op) = Some (r, m')
                    \<and> isRoot (op2cluster h) r
                    \<and> op \<in> set (clusterOps (op2cluster h) r)
                    \<and> (\<forall>r'. isRoot (op2cluster h) r' \<and> op \<in> set (clusterOps (op2cluster h) r')
                            \<longrightarrow> r' = r))"
proof -
  let ?m = "op2cluster h"
  from assms have inv: "clusterInv (set (trackedOps ext f a)) ?m" by (rule reachable_clusterInv)
  then have d: "dom ?m = opId ` set (trackedOps ext f a)" by (simp add: clusterInv_def)
  have p: "\<exists>r m'. getRoot ?m (opId op) = Some (r, m') \<and> isRoot ?m r
               \<and> op \<in> set (clusterOps ?m r)
               \<and> (\<forall>r'. isRoot ?m r' \<and> op \<in> set (clusterOps ?m r') \<longrightarrow> r' = r)"
    if "op \<in> set (trackedOps ext f a)" for op
  proof -
    from inv that obtain r where r: "rootOf ?m (opId op) r" "op \<in> set (clusterOps ?m r)"
      unfolding clusterInv_def by blast
    from rootOf_getRoot[OF r(1)] obtain m' where g: "getRoot ?m (opId op) = Some (r, m')" by blast
    have u: "r' = r" if "isRoot ?m r'" "op \<in> set (clusterOps ?m r')" for r'
    proof -
      from inv that have "rootOf ?m (opId op) r'" unfolding clusterInv_def by blast
      with r(1) show ?thesis by (rule rootOf_unique)
    qed
    from g rootOf_isRoot[OF r(1)] r(2) u show ?thesis by blast
  qed
  from d p show ?thesis by blast
qed

theorem union_find_invariant_witness:
  "\<exists>h r m'. chainHelper False = Some h \<and> mergeReachable False exExt chainFunc ''device'' h
     \<and> distinct (map opId (funcBody chainFunc))
     \<and> chainA \<in> set (trackedOps exExt chainFunc ''device'')
     \<and> getRoot (op2cluster h) (opId chainA) = Some (r, m')
     \<and> isRoot (op2cluster h) r \<and> chainA \<in> set (clusterOps (op2cluster h) r)
     \<and> r = 5 \<and> clusterOps (op2cluster h) 5 = [chainA, chainB, chainC]"
proof -
  have "map_option (\<lambda>h. (clusterOps (op2cluster h) 5, map_option fst (getRoot (op2cluster h) 3)))
          (chainHelper False) = Some ([chainA, chainB, chainC], Some 5)"
    by code_simp
  then obtain h where h: "chainHelper False = Some h"
    and c: "clusterOps (op2cluster h) 5 = [chainA, chainB, chainC]"
    and g: "map_option fst (getRoot (op2cluster h) 3) = Some 5"
    by auto
  have b: "funcBody (funcOp (DeviceClusteringAlgoBaseHelper exExt chainFunc ''device''))
             = funcBody chainFunc"
    by (simp add: DeviceClusteringAlgoBaseHelper_def)
  from h have "topDownLoop False [chainP, chainH, chainA, chainB, chainC]
                 (DeviceClusteringAlgoBaseHelper exExt chainFunc ''device'') = Some h"
    by (simp add: chainHelper_def)
  with reachInit have r: "mergeReachable False exExt chainFunc ''device'' h"
    by (rule topDownLoop_reachable)
  have d: "distinct (map opId (funcBody chainFunc))" by code_simp
  have t: "chainA \<in> set (trackedOps exExt chainFunc ''device'')" by code_simp
  have i: "opId chainA = 3" by code_simp
  from union_find_invariant[OF r d] t obtain r' m' where
    u: "getRoot (op2cluster h) (opId chainA) = Some (r', m')" "isRoot (op2cluster h) r'"
       "chainA \<in> set (clusterOps (op2cluster h) r')" by blast
  from u(1) g i have "r' = 5" by simp
  show ?thesis
    apply (rule exI[where x = h])
    apply (rule exI[where x = r'])
    apply (rule exI[where x = m'])
    apply (insert h r d t u c \<open>r' = 5\<close>)
    apply simp
    done
qed

section \<open>The move sets hold whole clusters\<close>

text \<open>
  The two loops are one loop: they differ in the dependency test and in the order in
  which the operations of a rejected cluster are visited.
\<close>

fun moveLoop ::
  "bool \<Rightarrow> (operation \<Rightarrow> operation list \<Rightarrow> bool) \<Rightarrow> bool \<Rightarrow> operation list \<Rightarrow> operation list
   \<Rightarrow> operation list \<Rightarrow> operation list \<Rightarrow> operation list \<Rightarrow> OpClusterMap
   \<Rightarrow> (operation list \<times> operation list \<times> OpClusterMap) option" where
  "moveLoop ndebug dep rv target vec [] remain move m = Some (remain, move, m)"
| "moveLoop ndebug dep rv target vec (op # rest) remain move m =
     (if op \<in> set remain then moveLoop ndebug dep rv target vec rest remain move m
      else if dep op target \<or> dep op remain then
        (case m (opId op) of
           None \<Rightarrow> moveLoop ndebug dep rv target vec rest (svInsert remain op) move m
         | Some it \<Rightarrow>
             (case getRoot m (opId op) of
                None \<Rightarrow> None
              | Some (cluster, m') \<Rightarrow>
                  (case m' cluster of
                     None \<Rightarrow> None
                   | Some cl \<Rightarrow>
                       (case pullCluster ndebug vec (if rv then rev (operations cl) else operations cl)
                               remain move of
                          None \<Rightarrow> None
                        | Some (remain', move') \<Rightarrow>
                            moveLoop ndebug dep rv target vec rest remain' move' m'))))
      else moveLoop ndebug dep rv target vec rest remain (svInsert move op) m)"

lemma computeMoveUpLoop_moveLoop:
  "computeMoveUpLoop ndebug target vec xs remain moveUp m
     = moveLoop ndebug anyDefIn False target vec xs remain moveUp m"
  by (induction ndebug target vec xs remain moveUp m rule: computeMoveUpLoop.induct)
     (auto split: option.splits)

lemma computeMoveDownLoop_moveLoop:
  "computeMoveDownLoop ndebug f target vec xs remain moveDown m
     = moveLoop ndebug (anyUseIn f) True target vec xs remain moveDown m"
  by (induction ndebug f target vec xs remain moveDown m rule: computeMoveDownLoop.induct)
     (auto split: option.splits)

lemma pullCluster_move:
  "pullCluster ndebug vec xs remain move = Some (remain', move') \<Longrightarrow> distinct move
   \<Longrightarrow> set move' = set move - set xs \<and> distinct move' \<and> (distinct remain \<longrightarrow> distinct remain')"
proof (induction xs arbitrary: remain move)
  case Nil
  then show ?case by simp
next
  case (Cons x xs)
  let ?mv = "if x \<in> set move then svRemove move x else move"
  have d: "distinct ?mv" using Cons.prems(2) by (simp add: svRemove_def)
  have s: "set ?mv = set move - {x}" using Cons.prems(2) by (auto simp: svRemove_def)
  show ?case
  proof (cases ndebug)
    case True
    with Cons.prems have p: "pullCluster ndebug vec xs remain ?mv = Some (remain', move')" by simp
    from Cons.IH[OF p d] s show ?thesis by auto
  next
    case False
    with Cons.prems have x: "x \<in> set vec" "x \<notin> set remain"
      by (auto split: if_splits)
    with Cons.prems False have
      p: "pullCluster ndebug vec xs (remain @ [x]) ?mv = Some (remain', move')" by simp
    from Cons.IH[OF p d] s x show ?thesis by auto
  qed
qed

text \<open>
  The invariant of the loop, for a cluster map with the union-find invariant: the
  operations visited so far are split between \<open>remain\<close> and \<open>move\<close>, and \<open>remain\<close> holds whole
  clusters.
\<close>

definition wholeClusters :: "OpClusterMap \<Rightarrow> operation list \<Rightarrow> bool" where
  "wholeClusters m remain =
     (\<forall>op \<in> set remain. \<forall>r. rootOf m (opId op) r \<longrightarrow> set (clusterOps m r) \<subseteq> set remain)"

lemma moveLoop_invariant:
  assumes "moveLoop ndebug dep rv target vec xs remain move m = Some (remain', move', m')"
      and "clusterInv T m"
      and "\<forall>op \<in> set vec. opId op \<in> dom m \<longrightarrow> op \<in> T"
      and "set vec = set visited \<union> set xs" and "distinct (visited @ xs)"
      and "set remain \<inter> set move = {}"
      and "set visited \<subseteq> set remain \<union> set move"
      and "set move \<subseteq> set visited" and "set remain \<subseteq> set vec"
      and "wholeClusters m remain"
      and "distinct move" and "distinct remain"
      and "\<not> ndebug"
  shows "set remain' \<inter> set move' = {} \<and> set remain' \<union> set move' = set vec
         \<and> wholeClusters m remain' \<and> distinct move' \<and> distinct remain'
         \<and> set remain \<subseteq> set remain'"
  using assms
proof (induction ndebug dep rv target vec xs remain move m arbitrary: visited
       rule: moveLoop.induct)
  case (1 ndebug dep rv target vec remain move m)
  then show ?case by auto
next
  case (2 ndebug dep rv target vec op rest remain move m)
  note inv = "2.prems"(2) and km = "2.prems"(3) and vec = "2.prems"(4) and dv = "2.prems"(5)
    and i1 = "2.prems"(6) and i2 = "2.prems"(7) and i3 = "2.prems"(8) and i3' = "2.prems"(9)
    and i4 = "2.prems"(10) and i5 = "2.prems"(11) and i6 = "2.prems"(12) and nd = "2.prems"(13)
  have vec': "set vec = set (visited @ [op]) \<union> set rest" using vec by simp
  have dv': "distinct ((visited @ [op]) @ rest)" using dv by simp
  have opv: "op \<in> set vec" "op \<notin> set visited" using vec dv by auto
  then have opm: "op \<notin> set move" using i3 by auto
  show ?case
  proof (cases "op \<in> set remain")
    case True
    with "2.prems"(1) have r: "moveLoop ndebug dep rv target vec rest remain move m
                                 = Some (remain', move', m')" by simp
    have "set (visited @ [op]) \<subseteq> set remain \<union> set move" using i2 True by auto
    moreover have "set move \<subseteq> set (visited @ [op])" using i3 by auto
    ultimately show ?thesis
      using "2.IH"(1)[OF True r inv km vec' dv' i1 _ _ i3' i4 i5 i6 nd] by blast
  next
    case nin: False
    show ?thesis
    proof (cases "dep op target \<or> dep op remain")
      case False
      with nin "2.prems"(1) have r: "moveLoop ndebug dep rv target vec rest remain (svInsert move op) m
                                       = Some (remain', move', m')" by simp
      have s: "set (svInsert move op) = insert op (set move)" by (rule set_svInsert)
      have a: "set remain \<inter> set (svInsert move op) = {}" using i1 nin s by auto
      have b: "set (visited @ [op]) \<subseteq> set remain \<union> set (svInsert move op)" using i2 s by auto
      have c: "set (svInsert move op) \<subseteq> set (visited @ [op])" using i3 s by auto
      have d: "distinct (svInsert move op)" using i5 by (rule distinct_svInsert)
      from "2.IH"(4)[OF nin False r inv km vec' dv' a b c i3' i4 d i6 nd] show ?thesis .
    next
      case dep: True
      show ?thesis
      proof (cases "m (opId op)")
        case None
        with nin dep "2.prems"(1) have r: "moveLoop ndebug dep rv target vec rest (svInsert remain op) move m
                                       = Some (remain', move', m')" by simp
        have s: "set (svInsert remain op) = insert op (set remain)" by (rule set_svInsert)
        have a: "set (svInsert remain op) \<inter> set move = {}" using i1 opm s by auto
        have b: "set (visited @ [op]) \<subseteq> set (svInsert remain op) \<union> set move" using i2 s by auto
        have c: "set move \<subseteq> set (visited @ [op])" using i3 by auto
        have d: "set (svInsert remain op) \<subseteq> set vec" using i3' opv s by auto
        have nr: "\<not> rootOf m (opId op) r" for r using None by (auto dest: rootOf_dom)
        have e: "wholeClusters m (svInsert remain op)"
          using i4 nr unfolding wholeClusters_def s by auto
        have f: "distinct (svInsert remain op)" using i6 by (rule distinct_svInsert)
        from "2.IH"(2)[OF nin dep None r inv km vec' dv' a b c d e i5 f nd] s show ?thesis by auto
      next
        case (Some it)
        with nin dep "2.prems"(1) obtain cluster m1 cl remain1 move1 where
          g: "getRoot m (opId op) = Some (cluster, m1)" and c1: "m1 cluster = Some cl"
          and p: "pullCluster ndebug vec (if rv then rev (operations cl) else operations cl) remain move
                    = Some (remain1, move1)"
          and r: "moveLoop ndebug dep rv target vec rest remain1 move1 m1 = Some (remain', move', m')"
          by (auto split: option.splits)
        have cm: "compressed m m1" using g by (rule getRoot_compressed)
        have ro: "rootOf m (opId op) cluster" using g by (rule getRoot_rootOf)
        have cops: "set (if rv then rev (operations cl) else operations cl)
                      = set (clusterOps m cluster)"
          using c1 compressed_clusterOps[OF cm, of cluster] by (simp add: clusterOps_def)
        from pullCluster_sets_assert[OF p nd] cops have ps: "set (clusterOps m cluster) \<subseteq> set vec"
          "set remain1 = set remain \<union> set (clusterOps m cluster)" by auto
        from pullCluster_move[OF p i5] cops i6 have pm: "set move1 = set move - set (clusterOps m cluster)"
          "distinct move1" "distinct remain1" by auto
        have opT: "op \<in> T" using km opv Some by auto
        with inv obtain r0 where "rootOf m (opId op) r0" "op \<in> set (clusterOps m r0)"
          unfolding clusterInv_def by blast
        with ro have opc: "op \<in> set (clusterOps m cluster)" by (auto dest: rootOf_unique)
        have inv1: "clusterInv T m1" using inv cm by (rule clusterInv_compressed)
        have km1: "\<forall>op \<in> set vec. opId op \<in> dom m1 \<longrightarrow> op \<in> T"
          using km compressed_dom[OF cm] by simp
        have a: "set remain1 \<inter> set move1 = {}" using i1 ps pm by auto
        have b: "set (visited @ [op]) \<subseteq> set remain1 \<union> set move1" using i2 ps pm opc by auto
        have c: "set move1 \<subseteq> set (visited @ [op])" using i3 pm by auto
        have d: "set remain1 \<subseteq> set vec" using i3' ps by auto
        have w: "wholeClusters m remain1"
          unfolding wholeClusters_def
        proof (intro ballI allI impI)
          fix x r assume x: "x \<in> set remain1" and xr: "rootOf m (opId x) r"
          show "set (clusterOps m r) \<subseteq> set remain1"
          proof (cases "x \<in> set remain")
            case True
            with i4 xr ps show ?thesis unfolding wholeClusters_def by blast
          next
            case False
            with x ps have "x \<in> set (clusterOps m cluster)" by auto
            with inv rootOf_isRoot[OF ro] have "rootOf m (opId x) cluster"
              unfolding clusterInv_def by blast
            with xr have "r = cluster" by (auto dest: rootOf_unique)
            with ps show ?thesis by auto
          qed
        qed
        then have e: "wholeClusters m1 remain1"
          unfolding wholeClusters_def
          by (simp add: compressed_rootOf[OF cm] compressed_clusterOps[OF cm])
        from "2.IH"(3)[OF nin dep Some g refl c1 p refl r inv1 km1 vec' dv' a b c d e pm(2) pm(3) nd]
        have res: "set remain' \<inter> set move' = {}" "set remain' \<union> set move' = set vec"
          "wholeClusters m1 remain'" "distinct move'" "distinct remain'" "set remain1 \<subseteq> set remain'"
          by auto
        from res(3) have "wholeClusters m remain'"
          unfolding wholeClusters_def
          by (simp add: compressed_rootOf[OF cm] compressed_clusterOps[OF cm])
        with res ps show ?thesis by auto
      qed
    qed
  qed
qed


lemma computeMoveUpSet_partition:
  assumes "computeMoveUpSet ndebug target src [] m = Some (remain, moveUp, m')"
      and "clusterInv T m" and "\<forall>op \<in> set src. opId op \<in> dom m \<longrightarrow> op \<in> T"
      and "distinct src" and "\<not> ndebug"
  shows "set remain \<inter> set moveUp = {} \<and> set remain \<union> set moveUp = set src
         \<and> wholeClusters m remain \<and> distinct moveUp \<and> distinct remain"
proof -
  from assms(1) have "moveLoop ndebug anyDefIn False target src src [] [] m = Some (remain, moveUp, m')"
    by (simp add: computeMoveUpSet_def computeMoveUpLoop_moveLoop)
  from moveLoop_invariant[OF this assms(2,3), of "[]"] assms(4,5) show ?thesis
    by (simp add: wholeClusters_def)
qed

lemma computeMoveDownSet_partition:
  assumes "computeMoveDownSet ndebug f target src [] m = Some (remain, moveDown, m')"
      and "clusterInv T m" and "\<forall>op \<in> set src. opId op \<in> dom m \<longrightarrow> op \<in> T"
      and "distinct src" and "\<not> ndebug"
  shows "set remain \<inter> set moveDown = {} \<and> set remain \<union> set moveDown = set src
         \<and> wholeClusters m remain \<and> distinct moveDown \<and> distinct remain"
proof -
  from assms(1) obtain remain0 where
    l: "moveLoop ndebug (anyUseIn f) True target src (rev src) [] [] m = Some (remain0, moveDown, m')"
    and r: "remain = rev remain0"
    by (auto simp: computeMoveDownSet_def computeMoveDownLoop_moveLoop split: option.splits)
  from moveLoop_invariant[OF l assms(2,3), of "[]"] assms(4,5) r show ?thesis
    by (simp add: wholeClusters_def)
qed

lemma reachable_keys:
  assumes r: "mergeReachable ndebug ext f a h" and d: "distinct (map opId (funcBody f))"
      and s: "set src \<subseteq> set (funcBody f)"
  shows "\<forall>op \<in> set src. opId op \<in> dom (op2cluster h) \<longrightarrow> op \<in> set (trackedOps ext f a)"
proof (intro ballI impI)
  fix op assume op: "op \<in> set src" and k: "opId op \<in> dom (op2cluster h)"
  from reachable_clusterInv[OF r d] have "dom (op2cluster h) = opId ` set (trackedOps ext f a)"
    by (simp add: clusterInv_def)
  with k obtain op' where o': "op' \<in> set (trackedOps ext f a)" "opId op' = opId op" by auto
  then have "op' \<in> set (funcBody f)" by (simp add: trackedOps_def)
  with op s d o'(2) have "op' = op" by (auto simp: distinct_map dest: inj_onD)
  with o'(1) show "op \<in> set (trackedOps ext f a)" by simp
qed

text \<open>
  What the claim asks of a move set and its residual, for the operations \<open>src\<close> of the gap:
  together they are the gap; the cluster of an operation of the residual is in the
  residual as a whole, with no member in the move set; and the cluster of an operation
  of the move set has no member in the residual, all its members in the gap being in the
  move set.
\<close>

definition atomicSplit ::
  "OpClusterMap \<Rightarrow> operation list \<Rightarrow> operation list \<Rightarrow> operation list \<Rightarrow> bool" where
  "atomicSplit m src remain move =
     (set remain \<union> set move = set src \<and> set remain \<inter> set move = {}
      \<and> (\<forall>op \<in> set src. \<forall>r. rootOf m (opId op) r \<longrightarrow>
            (op \<in> set remain \<longrightarrow>
               set (clusterOps m r) \<subseteq> set remain \<and> set (clusterOps m r) \<inter> set move = {})
            \<and> (op \<in> set move \<longrightarrow>
               set (clusterOps m r) \<inter> set src \<subseteq> set move
               \<and> set (clusterOps m r) \<inter> set remain = {})))"

lemma atomicSplit_intro:
  assumes inv: "clusterInv T m"
      and km: "\<forall>op \<in> set src. opId op \<in> dom m \<longrightarrow> op \<in> T"
      and p: "set remain \<inter> set move = {}" "set remain \<union> set move = set src"
      and w: "wholeClusters m remain"
  shows "atomicSplit m src remain move"
  unfolding atomicSplit_def
proof (intro conjI ballI allI impI)
  show "set remain \<union> set move = set src" by fact
  show "set remain \<inter> set move = {}" by fact
next
  fix op r assume op: "op \<in> set src" and r: "rootOf m (opId op) r" and i: "op \<in> set remain"
  from w i r show "set (clusterOps m r) \<subseteq> set remain" unfolding wholeClusters_def by blast
  with p(1) show "set (clusterOps m r) \<inter> set move = {}" by auto
next
  fix op r assume op: "op \<in> set src" and r: "rootOf m (opId op) r" and i: "op \<in> set move"
  have opT: "op \<in> T" using km op r by (auto dest: rootOf_dom)
  with inv obtain r0 where "rootOf m (opId op) r0" "op \<in> set (clusterOps m r0)"
    unfolding clusterInv_def by blast
  with r have opc: "op \<in> set (clusterOps m r)" by (auto dest: rootOf_unique)
  show e: "set (clusterOps m r) \<inter> set remain = {}"
  proof (rule ccontr)
    assume "set (clusterOps m r) \<inter> set remain \<noteq> {}"
    then obtain x where x: "x \<in> set (clusterOps m r)" "x \<in> set remain" by auto
    from inv rootOf_isRoot[OF r] x(1) have "rootOf m (opId x) r" unfolding clusterInv_def by blast
    with w x(2) have "set (clusterOps m r) \<subseteq> set remain" unfolding wholeClusters_def by blast
    with opc i p(1) show False by auto
  qed
  with p(2) show "set (clusterOps m r) \<inter> set src \<subseteq> set move" by auto
qed

text \<open>
  With the assertions compiled in (\<open>ndebug\<close> false) the loops do what the claim on whole
  clusters says. In a state a clusterer reaches on a function whose operations have
  distinct identities, for operations \<open>src\<close> of the block: when an operation ends in the
  residual of the move-up set (of the move-down set), every operation of its root cluster
  is in the residual and none is in the move set, so a cluster never has members on both
  sides.
\<close>

theorem whole_cluster_rejection:
  assumes "mergeReachable ndebug ext f a h" and "distinct (map opId (funcBody f))"
      and "set src \<subseteq> set (funcBody f)" and "distinct src" and "\<not> ndebug"
  shows "(computeMoveUpSet ndebug target src [] (op2cluster h) = Some (remain, moveUp, m')
            \<longrightarrow> atomicSplit (op2cluster h) src remain moveUp)
         \<and> (computeMoveDownSet ndebug (funcOp h) target src [] (op2cluster h) = Some (remain2, moveDown, m'')
            \<longrightarrow> atomicSplit (op2cluster h) src remain2 moveDown)"
proof -
  note inv = reachable_clusterInv[OF assms(1,2)]
  note km = reachable_keys[OF assms(1,2,3)]
  have u: "atomicSplit (op2cluster h) src remain moveUp"
    if "computeMoveUpSet ndebug target src [] (op2cluster h) = Some (remain, moveUp, m')"
    using computeMoveUpSet_partition[OF that inv km assms(4,5)]
    by (intro atomicSplit_intro[OF inv km]) simp_all
  have d: "atomicSplit (op2cluster h) src remain2 moveDown"
    if "computeMoveDownSet ndebug (funcOp h) target src [] (op2cluster h) = Some (remain2, moveDown, m'')"
    using computeMoveDownSet_partition[OF that inv km assms(4,5)]
    by (intro atomicSplit_intro[OF inv km]) simp_all
  from u d show ?thesis by blast
qed

text \<open>
  The block \<open>[p, h(p), x, y(h, x), q(p, y)]\<close> with \<open>h\<close> marked host. The top-down strategy
  merges \<open>x\<close> into \<open>y\<close>; when it then tries to merge \<open>p\<close> and \<open>q\<close>, \<open>x\<close> is accepted into the
  move-up set and is taken out again when \<open>y\<close> is rejected.
\<close>

definition pullP :: operation where "pullP = Operation 1 [] [] 1 []"
definition pullH :: operation where
  "pullH = Operation 2 [OpResult 1 0] [(''device'', ''host'')] 1 []"
definition pullX :: operation where "pullX = Operation 3 [] [] 1 []"
definition pullY :: operation where "pullY = Operation 4 [OpResult 2 0, OpResult 3 0] [] 1 []"
definition pullQ :: operation where "pullQ = Operation 5 [OpResult 1 0, OpResult 4 0] [] 1 []"
definition pullRet :: operation where "pullRet = Operation 6 [OpResult 5 0] [] 0 []"

definition pullFunc :: func where
  "pullFunc = mkFunc [pullP, pullH, pullX, pullY, pullQ] pullRet"

definition pullHelper :: "bool \<Rightarrow> helper option" where
  "pullHelper ndebug = topDownLoop ndebug [pullP, pullH, pullX, pullY]
                  (DeviceClusteringAlgoBaseHelper exExt pullFunc ''device'')"



theorem whole_cluster_rejection_witness:
  "\<exists>h m' m'' m3.
     pullHelper False = Some h
     \<and> clusterOps (op2cluster h) 4 = [pullX, pullY]
     \<and> computeMoveUpSet False [pullP] [pullH, pullX] [] (op2cluster h) = Some ([pullH], [pullX], m3)
     \<and> computeMoveUpSet False [pullP] [pullH, pullX, pullY] [] (op2cluster h)
         = Some ([pullH, pullX, pullY], [], m')
     \<and> atomicSplit (op2cluster h) [pullH, pullX, pullY] [pullH, pullX, pullY] []
     \<and> computeMoveDownSet False (funcOp h) [pullQ] [pullH, pullX, pullY] [] (op2cluster h)
         = Some ([pullH, pullX, pullY], [], m'')"
proof -
  have "case pullHelper False of
          None \<Rightarrow> False
        | Some h \<Rightarrow>
            clusterOps (op2cluster h) 4 = [pullX, pullY]
            \<and> map_option (\<lambda>(r, mv, m). (r, mv))
                 (computeMoveUpSet False [pullP] [pullH, pullX] [] (op2cluster h))
                = Some ([pullH], [pullX])
            \<and> map_option (\<lambda>(r, mv, m). (r, mv))
                 (computeMoveUpSet False [pullP] [pullH, pullX, pullY] [] (op2cluster h))
                = Some ([pullH, pullX, pullY], [])
            \<and> map_option (\<lambda>(r, mv, m). (r, mv))
                 (computeMoveDownSet False (funcOp h) [pullQ] [pullH, pullX, pullY] [] (op2cluster h))
                = Some ([pullH, pullX, pullY], [])"
    by code_simp
  then obtain h m3 m' m'' where h: "pullHelper False = Some h"
    and c: "clusterOps (op2cluster h) 4 = [pullX, pullY]"
    and u0: "computeMoveUpSet False [pullP] [pullH, pullX] [] (op2cluster h) = Some ([pullH], [pullX], m3)"
    and u: "computeMoveUpSet False [pullP] [pullH, pullX, pullY] [] (op2cluster h)
              = Some ([pullH, pullX, pullY], [], m')"
    and d: "computeMoveDownSet False (funcOp h) [pullQ] [pullH, pullX, pullY] [] (op2cluster h)
              = Some ([pullH, pullX, pullY], [], m'')"
    by (auto split: option.splits)
  from h have "topDownLoop False [pullP, pullH, pullX, pullY]
                 (DeviceClusteringAlgoBaseHelper exExt pullFunc ''device'') = Some h"
    by (simp add: pullHelper_def)
  with reachInit have r: "mergeReachable False exExt pullFunc ''device'' h"
    by (rule topDownLoop_reachable)
  have di: "distinct (map opId (funcBody pullFunc))" by code_simp
  have sb: "set [pullH, pullX, pullY] \<subseteq> set (funcBody pullFunc)" by code_simp
  have ds: "distinct [pullH, pullX, pullY]" by code_simp
  from whole_cluster_rejection[OF r di sb ds, of "[pullP]" "[pullH, pullX, pullY]" "[]" m'] u
  have a: "atomicSplit (op2cluster h) [pullH, pullX, pullY] [pullH, pullX, pullY] []" by blast
  show ?thesis
    apply (rule exI[where x = h])
    apply (rule exI[where x = m'])
    apply (rule exI[where x = m''])
    apply (rule exI[where x = m3])
    apply (insert h c u0 u a d)
    apply simp
    done
qed

text \<open>
  C4 fails in a build with \<open>NDEBUG\<close>. The insertion of a rejected cluster into the residual
  is the argument of an \<open>assert\<close> (lines 249 and 280), so it is compiled out together with
  the check. On the block \<open>[p, h(p), a(h), b(a), c(b), q(p, c)]\<close> with \<open>h\<close> marked host, the
  top-down strategy has merged \<open>a\<close>, \<open>b\<close> and \<open>c\<close> when it tries to merge \<open>p\<close> and \<open>q\<close>. The
  move-up loop rejects \<open>a\<close>, which uses \<open>h\<close>; without the insertion neither \<open>a\<close> nor its
  cluster-mates reach the residual, and \<open>b\<close> and \<open>c\<close> are accepted into the move set
  afterwards: the cluster has two members in the move set and none in the residual. The
  merge then succeeds and the strategy leaves \<open>b\<close> and \<open>c\<close> ahead of \<open>a\<close>, whose result
  they use. With the assertions compiled in, the whole cluster is in the residual and
  the block stays as it was.
\<close>

theorem cluster_split_without_assertions:
  "map_option
     (\<lambda>h. (funcBody (funcOp h), clusterOps (op2cluster h) 5,
            map_option (\<lambda>(remain, moveUp, m). (remain, moveUp))
              (computeMoveUpSet True [chainP] [chainH, chainA, chainB, chainC] [] (op2cluster h))))
     (chainHelper True)
     = Some ([chainP, chainH, chainA, chainB, chainC, chainQ], [chainA, chainB, chainC],
             Some ([chainH], [chainB, chainC]))
   \<and> map_option
     (\<lambda>h. (funcBody (funcOp h), clusterOps (op2cluster h) 5,
            map_option (\<lambda>(remain, moveUp, m). (remain, moveUp))
              (computeMoveUpSet False [chainP] [chainH, chainA, chainB, chainC] [] (op2cluster h))))
     (chainHelper False)
     = Some ([chainP, chainH, chainA, chainB, chainC, chainQ], [chainA, chainB, chainC],
             Some ([chainH, chainA, chainB, chainC], []))
   \<and> map_option (\<lambda>h. funcBody (funcOp h))
        (TopDownDeviceClustering True exExt chainFunc ''device'' [1, 3, 4, 5, 6])
       = Some [chainB, chainC, chainP, chainA, chainQ, chainH]
   \<and> map_option (\<lambda>h. funcBody (funcOp h))
        (TopDownDeviceClustering False exExt chainFunc ''device'' [1, 3, 4, 5, 6])
       = Some [chainP, chainH, chainA, chainB, chainC, chainQ]"
  by code_simp

end
